theory Spec2Isabelle
  imports Complex_Main "HOL-Library.Word"
begin

section \<open>Frames on the data channel\<close>

text \<open>
  The data channel of \<^verbatim>\<open>webrtc.js\<close> carries two kinds of messages: one text message
  holding \<^verbatim>\<open>JSON.stringify({filename, size, type})\<close> and binary messages holding
  \<^verbatim>\<open>ArrayBuffer\<close>s. A text message is represented by the object that \<^verbatim>\<open>JSON.parse\<close>
  yields for it on the receiving side; for the object the sender serialises (two strings
  and a non-negative integer) that is an object with the same three fields. Console
  output is not modelled.
\<close>

type_synonym byte = "8 word"
type_synonym bytes = "byte list"

record metadata =
  filename :: string
  msize :: nat
  mtype :: string

datatype frame = Text metadata | Binary bytes

text \<open>
  JavaScript numbers, as far as the percentage \<^verbatim>\<open>(a / b) * 100\<close> of two non-negative
  integers needs them: a division by zero gives \<^verbatim>\<open>NaN\<close> or \<^verbatim>\<open>Infinity\<close>. A finite value
  is kept as the exact quotient (the rounding of IEEE doubles is not modelled).
\<close>

datatype number = Finite rat | Infinity | NaN

definition js_div :: "nat \<Rightarrow> nat \<Rightarrow> number" where
  "js_div a b =
     (if b = 0 then (if a = 0 then NaN else Infinity)
      else Finite (of_nat a / of_nat b))"

fun js_times :: "number \<Rightarrow> rat \<Rightarrow> number" where
  "js_times (Finite r) k = Finite (r * k)"
| "js_times Infinity k = Infinity"
| "js_times NaN k = NaN"

definition percent :: "nat \<Rightarrow> nat \<Rightarrow> number" where
  "percent a b = js_times (js_div a b) 100"

section \<open>Receiving a file: \<^verbatim>\<open>setupReceive\<close>\<close>

text \<open>
  The closure state of \<^verbatim>\<open>setupReceive\<close>: \<^verbatim>\<open>meta\<close> (initially \<^verbatim>\<open>null\<close>),
  \<^verbatim>\<open>receivedBytes\<close> and \<^verbatim>\<open>chunks\<close>. The calls of the two callbacks are returned as a
  list, in the order in which the handler makes them. \<^verbatim>\<open>onProgress\<close> may be absent
  (the handler tests it); \<^verbatim>\<open>onFileReceived\<close> is called without a test.
\<close>

record receiver =
  meta :: "metadata option"
  receivedBytes :: nat
  chunks :: "bytes list"

datatype blob = Blob bytes string

datatype callback =
  OnProgress number nat nat
| OnFileReceived metadata blob

definition setupReceive :: receiver where
  "setupReceive = \<lparr>meta = None, receivedBytes = 0, chunks = []\<rparr>"

fun onmessage :: "bool \<Rightarrow> receiver \<Rightarrow> frame \<Rightarrow> receiver \<times> callback list" where
  "onmessage onProgress r (Text m) = (r\<lparr>meta := Some m\<rparr>, [])"
| "onmessage onProgress r (Binary d) =
     (let r' = r\<lparr>chunks := chunks r @ [d],
                 receivedBytes := receivedBytes r + length d\<rparr>
      in (r',
          (case meta r' of
             None \<Rightarrow> []
           | Some m \<Rightarrow>
               (if onProgress
                then [OnProgress (percent (receivedBytes r') (msize m))
                        (receivedBytes r') (msize m)]
                else []) @
               (if receivedBytes r' = msize m
                then [OnFileReceived m (Blob (concat (chunks r')) (mtype m))]
                else []))))"

text \<open>Delivering a sequence of messages to the handler, one after the other.\<close>

fun deliver :: "bool \<Rightarrow> receiver \<Rightarrow> frame list \<Rightarrow> receiver \<times> callback list" where
  "deliver onProgress r [] = (r, [])"
| "deliver onProgress r (f # fs) =
     (case onmessage onProgress r f of
        (r', cbs) \<Rightarrow>
          (case deliver onProgress r' fs of
             (r'', cbs') \<Rightarrow> (r'', cbs @ cbs')))"

text \<open>The completion calls and the byte counts of the progress calls in a list of calls.\<close>

fun completions :: "callback list \<Rightarrow> (metadata \<times> blob) list" where
  "completions [] = []"
| "completions (OnFileReceived m b # cs) = (m, b) # completions cs"
| "completions (OnProgress p n t # cs) = completions cs"

fun progress_bytes :: "callback list \<Rightarrow> nat list" where
  "progress_bytes [] = []"
| "progress_bytes (OnProgress p n t # cs) = n # progress_bytes cs"
| "progress_bytes (OnFileReceived m b # cs) = progress_bytes cs"

section \<open>Sending a file: \<^verbatim>\<open>sendFileOverRTC\<close>\<close>

text \<open>
  A \<^verbatim>\<open>File\<close> is its name, its MIME type and its bytes; \<^verbatim>\<open>file.size\<close> is the number of
  bytes. \<^verbatim>\<open>Blob.slice(start, end)\<close> clamps both (non-negative) ends to the size.
\<close>

record jsfile =
  file_name :: string
  file_type :: string
  file_bytes :: bytes

definition file_size :: "jsfile \<Rightarrow> nat" where
  "file_size f = length (file_bytes f)"

definition file_slice :: "jsfile \<Rightarrow> nat \<Rightarrow> nat \<Rightarrow> bytes" where
  "file_slice f start fin =
     (let s = min start (file_size f); e = min fin (file_size f)
      in take (e - s) (drop s (file_bytes f)))"

text \<open>
  The channel as the sender sees it: \<^verbatim>\<open>readyState\<close> and \<^verbatim>\<open>bufferedAmount\<close>.
  \<^verbatim>\<open>dc.send\<close> throws on a channel that is not open and otherwise queues the message,
  so \<^verbatim>\<open>bufferedAmount\<close> grows by the length of the message. The transport empties the
  queue while the sender is suspended in an \<^verbatim>\<open>await\<close>: the environment says how many
  bytes leave the queue during each suspension, and how many bytes the serialised
  metadata takes on the wire. The channel is taken to stay in the ready state it has
  at the call.
\<close>

datatype ready_state = Connecting | Open | Closing | Closed

record channel =
  readyState :: ready_state
  bufferedAmount :: nat

record environment =
  drained :: "nat \<Rightarrow> nat"
  encoded_length :: "metadata \<Rightarrow> nat"

datatype error = DataChannelNotOpen | InvalidStateError

text \<open>
  What the sender does to the outside, in order: a message written to the channel
  (recorded with the \<^verbatim>\<open>bufferedAmount\<close> of the channel at that write), a timer set with
  \<^verbatim>\<open>setTimeout\<close>, and a call of the progress callback.
\<close>

datatype action =
  Send frame nat
| SetTimeout nat
| SetProgress number nat

record sender =
  dc :: channel
  suspensions :: nat
  effects :: "action list"

definition frame_length :: "environment \<Rightarrow> frame \<Rightarrow> nat" where
  "frame_length env f = (case f of Text m \<Rightarrow> encoded_length env m | Binary d \<Rightarrow> length d)"

definition dc_send :: "environment \<Rightarrow> frame \<Rightarrow> sender \<Rightarrow> error + sender" where
  "dc_send env f s =
     (if readyState (dc s) \<noteq> Open then Inl InvalidStateError
      else Inr (s\<lparr>effects := effects s @ [Send f (bufferedAmount (dc s))],
                 dc := (dc s)\<lparr>bufferedAmount :=
                          bufferedAmount (dc s) + frame_length env f\<rparr>\<rparr>))"

definition await :: "environment \<Rightarrow> sender \<Rightarrow> sender" where
  "await env s =
     s\<lparr>dc := (dc s)\<lparr>bufferedAmount :=
                bufferedAmount (dc s) - drained env (suspensions s)\<rparr>,
       suspensions := Suc (suspensions s)\<rparr>"

definition CHUNK_SIZE :: nat where
  "CHUNK_SIZE = 64 * 1024"

text \<open>
  The inner loop, \<^verbatim>\<open>while (dc.bufferedAmount > CHUNK_SIZE * 8) await (20 ms timer)\<close>.
  It ends only if the transport drains the queue, so it runs on fuel: one unit for each
  turn. The result is the fuel left when the loop has ended, or \<open>None\<close> when the fuel
  ran out and the sender is still waiting.
\<close>

fun backpressure :: "nat \<Rightarrow> environment \<Rightarrow> sender \<Rightarrow> nat option \<times> sender" where
  "backpressure 0 env s =
     (if bufferedAmount (dc s) > CHUNK_SIZE * 8 then (None, s) else (Some 0, s))"
| "backpressure (Suc n) env s =
     (if bufferedAmount (dc s) > CHUNK_SIZE * 8
      then backpressure n env (await env (s\<lparr>effects := effects s @ [SetTimeout 20]\<rparr>))
      else (Some (Suc n), s))"

datatype outcome = Resolved | Rejected error | Pending

text \<open>The outer loop, \<^verbatim>\<open>while (offset < file.size)\<close>, from a given \<^verbatim>\<open>offset\<close>.\<close>

function send_loop ::
  "nat \<Rightarrow> environment \<Rightarrow> jsfile \<Rightarrow> bool \<Rightarrow> nat \<Rightarrow> sender \<Rightarrow> outcome \<times> sender" where
  "send_loop fuel env f setProgress offset s =
     (if offset < file_size f then
        (case backpressure fuel env s of
           (None, s1) \<Rightarrow> (Pending, s1)
         | (Some fuel', s1) \<Rightarrow>
             (let buffer = file_slice f offset (offset + CHUNK_SIZE);
                  s2 = await env s1
              in (case dc_send env (Binary buffer) s2 of
                    Inl e \<Rightarrow> (Rejected e, s2)
                  | Inr s3 \<Rightarrow>
                      (let offset' = offset + CHUNK_SIZE;
                           s4 = (if setProgress
                                 then s3\<lparr>effects := effects s3 @
                                        [SetProgress (percent offset' (file_size f)) offset']\<rparr>
                                 else s3)
                       in send_loop fuel' env f setProgress offset' s4))))
      else (Resolved, s))"
  by pat_completeness auto
termination
  by (relation "measure (\<lambda>(fuel, env, f, setProgress, offset, s). file_size f - offset)")
     (auto simp: CHUNK_SIZE_def)

declare send_loop.simps [simp del]

definition metadata_of :: "jsfile \<Rightarrow> metadata" where
  "metadata_of f = \<lparr>filename = file_name f, msize = file_size f, mtype = file_type f\<rparr>"

text \<open>
  The body of \<^verbatim>\<open>sendFileOverRTC(file, dc, setProgress)\<close>: \<open>dc\<close> is \<open>None\<close> for an
  absent channel, \<open>setProgress\<close> says whether a progress callback was passed. The result
  is the way the body ends: the outcome, the channel afterwards, the effects in order,
  and the number of suspensions (\<^verbatim>\<open>await\<close>s) the body has gone through by then.
\<close>

definition sendFileOverRTC_body ::
  "nat \<Rightarrow> environment \<Rightarrow> jsfile \<Rightarrow> channel option \<Rightarrow> bool
     \<Rightarrow> outcome \<times> channel option \<times> action list \<times> nat" where
  "sendFileOverRTC_body fuel env f c setProgress =
     (case c of
        None \<Rightarrow> (Rejected DataChannelNotOpen, c, [], 0)
      | Some d \<Rightarrow>
          (if readyState d \<noteq> Open then (Rejected DataChannelNotOpen, c, [], 0)
           else (case dc_send env (Text (metadata_of f))
                        \<lparr>dc = d, suspensions = 0, effects = []\<rparr> of
                   Inl e \<Rightarrow> (Rejected e, c, [], 0)
                 | Inr s \<Rightarrow>
                     (case send_loop fuel env f setProgress 0 s of
                        (out, s') \<Rightarrow> (out, Some (dc s'), effects s', suspensions s')))))"

text \<open>
  The function is declared \<^verbatim>\<open>async\<close>. A call of it never throws to its caller: it
  returns a promise, which settles the way the body ends, and an error thrown in the
  body is the rejection of that promise.
\<close>

datatype call =
  Throws error
| Promise "outcome \<times> channel option \<times> action list \<times> nat"

definition sendFileOverRTC_call ::
  "nat \<Rightarrow> environment \<Rightarrow> jsfile \<Rightarrow> channel option \<Rightarrow> bool \<Rightarrow> call" where
  "sendFileOverRTC_call fuel env f c setProgress =
     Promise (sendFileOverRTC_body fuel env f c setProgress)"

fun throws :: "call \<Rightarrow> bool" where
  "throws (Throws e) = True"
| "throws (Promise p) = False"

text \<open>
  The settlement of the promise without the count of suspensions: the outcome, the
  channel afterwards and the effects in order.
\<close>

definition sendFileOverRTC ::
  "nat \<Rightarrow> environment \<Rightarrow> jsfile \<Rightarrow> channel option \<Rightarrow> bool
     \<Rightarrow> outcome \<times> channel option \<times> action list" where
  "sendFileOverRTC fuel env f c setProgress =
     (case sendFileOverRTC_body fuel env f c setProgress of
        (out, c', effs, n) \<Rightarrow> (out, c', effs))"

text \<open>The messages written, and the progress calls made, in a list of effects.\<close>

fun written :: "action list \<Rightarrow> frame list" where
  "written [] = []"
| "written (Send f b # as) = f # written as"
| "written (SetTimeout ms # as) = written as"
| "written (SetProgress p n # as) = written as"

fun progress_calls :: "action list \<Rightarrow> (number \<times> nat) list" where
  "progress_calls [] = []"
| "progress_calls (SetProgress p n # as) = (p, n) # progress_calls as"
| "progress_calls (Send f b # as) = progress_calls as"
| "progress_calls (SetTimeout ms # as) = progress_calls as"

subsection \<open>Auxiliary notions for the sender\<close>

text \<open>The guard of the call, \<^verbatim>\<open>!dc || dc.readyState !== "open"\<close>.\<close>

definition not_open :: "channel option \<Rightarrow> bool" where
  "not_open c = (case c of None \<Rightarrow> True | Some d \<Rightarrow> readyState d \<noteq> Open)"

text \<open>
  One turn of the outer loop after the wait: read the slice (a suspension), write it,
  advance the offset and report progress.
\<close>

definition chunk_step :: "environment \<Rightarrow> jsfile \<Rightarrow> bool \<Rightarrow> nat \<Rightarrow> sender \<Rightarrow> sender" where
  "chunk_step env f setProgress offset s =
     (case dc_send env (Binary (file_slice f offset (offset + CHUNK_SIZE))) (await env s) of
        Inl e \<Rightarrow> await env s
      | Inr s3 \<Rightarrow>
          (if setProgress
           then s3\<lparr>effects := effects s3 @
                  [SetProgress (percent (offset + CHUNK_SIZE) (file_size f))
                     (offset + CHUNK_SIZE)]\<rparr>
           else s3))"

text \<open>The sender after a successful write of the metadata, when the loop begins.\<close>

definition started :: "environment \<Rightarrow> jsfile \<Rightarrow> channel \<Rightarrow> sender" where
  "started env f c =
     \<lparr>dc = c\<lparr>bufferedAmount := bufferedAmount c + encoded_length env (metadata_of f)\<rparr>,
      suspensions = 0,
      effects = [Send (Text (metadata_of f)) (bufferedAmount c)]\<rparr>"

text \<open>The slices that the loop reads when it starts at \<open>offset\<close> and runs to its end.\<close>

function slices :: "jsfile \<Rightarrow> nat \<Rightarrow> bytes list" where
  "slices f offset =
     (if offset < file_size f
      then file_slice f offset (offset + CHUNK_SIZE) # slices f (offset + CHUNK_SIZE)
      else [])"
  by pat_completeness auto
termination
  by (relation "measure (\<lambda>(f, offset). file_size f - offset)") (auto simp: CHUNK_SIZE_def)

declare slices.simps [simp del]

text \<open>
  The backpressure discipline on one effect: a binary message is written at a
  \<^verbatim>\<open>bufferedAmount\<close> of at most eight chunks, and a timer waits 20 ms.
\<close>

fun disciplined :: "action \<Rightarrow> bool" where
  "disciplined (Send (Binary d) b) = (b \<le> 8 * 65536)"
| "disciplined (Send (Text m) b) = True"
| "disciplined (SetTimeout ms) = (ms = 20)"
| "disciplined (SetProgress p n) = True"

section \<open>Negotiating the connection: \<^verbatim>\<open>createWebRTCConnection\<close>\<close>

text \<open>
  The function creates the peer connection, registers its handlers and joins the room.
  Each handler is a function from the event it is registered for to the calls it makes:
  calls of the peer connection, messages emitted on the signalling socket, callbacks.
  The peer-connection stack decides what \<^verbatim>\<open>createOffer\<close> and \<^verbatim>\<open>createAnswer\<close>
  yield and which descriptions and candidates it accepts; a call it rejects throws, and
  the handler stops there (the \<^verbatim>\<open>signal\<close> handler catches and logs).
\<close>

type_synonym sdp = string
type_synonym candidate = string

datatype signal = Offer sdp | Answer sdp | Ice candidate | Other

datatype socket_message = JoinRoom string | Signal string signal

datatype event =
  PeerJoined
| SignalReceived signal
| IceCandidateFound "candidate option"
| DataChannelArrived
| ChannelOpened
| ChannelFailed

datatype pc_action =
  CreateDataChannel
| CreateOffer
| CreateAnswer
| SetLocalDescription sdp
| SetRemoteDescription sdp
| AddIceCandidate candidate
| Emit socket_message
| OnChannelOpen
| SetupReceive
| ConsoleError

record stack =
  offer :: "sdp option"
  answer :: "sdp option"
  accepts_local :: "sdp \<Rightarrow> bool"
  accepts_remote :: "sdp \<Rightarrow> bool"
  accepts_candidate :: "candidate \<Rightarrow> bool"

record negotiator =
  code :: string
  isReceiver :: bool
  dataChannel :: bool
  localDescription :: "sdp option"
  remoteDescription :: "sdp option"
  remoteCandidates :: "candidate list"

definition createWebRTCConnection :: "string \<Rightarrow> bool \<Rightarrow> negotiator \<times> pc_action list" where
  "createWebRTCConnection c receiver =
     (\<lparr>code = c, isReceiver = receiver, dataChannel = \<not> receiver,
       localDescription = None, remoteDescription = None, remoteCandidates = []\<rparr>,
      (if \<not> receiver then [CreateDataChannel] else []) @ [Emit (JoinRoom c)])"

fun on_signal :: "stack \<Rightarrow> negotiator \<Rightarrow> signal \<Rightarrow> negotiator \<times> pc_action list" where
  "on_signal st n (Offer d) =
     (if \<not> accepts_remote st d then (n, [SetRemoteDescription d, ConsoleError])
      else (case answer st of
              None \<Rightarrow> (n\<lparr>remoteDescription := Some d\<rparr>,
                        [SetRemoteDescription d, CreateAnswer, ConsoleError])
            | Some a \<Rightarrow>
                (if \<not> accepts_local st a
                 then (n\<lparr>remoteDescription := Some d\<rparr>,
                       [SetRemoteDescription d, CreateAnswer, SetLocalDescription a,
                        ConsoleError])
                 else (n\<lparr>remoteDescription := Some d, localDescription := Some a\<rparr>,
                       [SetRemoteDescription d, CreateAnswer, SetLocalDescription a,
                        Emit (Signal (code n) (Answer a))]))))"
| "on_signal st n (Answer d) =
     (if \<not> accepts_remote st d then (n, [SetRemoteDescription d, ConsoleError])
      else (n\<lparr>remoteDescription := Some d\<rparr>, [SetRemoteDescription d]))"
| "on_signal st n (Ice c) =
     (if \<not> accepts_candidate st c then (n, [AddIceCandidate c, ConsoleError])
      else (n\<lparr>remoteCandidates := remoteCandidates n @ [c]\<rparr>, [AddIceCandidate c]))"
| "on_signal st n Other = (n, [])"

definition on_peer_joined :: "stack \<Rightarrow> negotiator \<Rightarrow> negotiator \<times> pc_action list" where
  "on_peer_joined st n =
     (if \<not> isReceiver n then
        (case offer st of
           None \<Rightarrow> (n, [CreateOffer])
         | Some d \<Rightarrow>
             (if \<not> accepts_local st d then (n, [CreateOffer, SetLocalDescription d])
              else (n\<lparr>localDescription := Some d\<rparr>,
                    [CreateOffer, SetLocalDescription d, Emit (Signal (code n) (Offer d))])))
      else (n, []))"

fun handle :: "stack \<Rightarrow> bool \<Rightarrow> negotiator \<Rightarrow> event \<Rightarrow> negotiator \<times> pc_action list" where
  "handle st onChannelOpen n PeerJoined = on_peer_joined st n"
| "handle st onChannelOpen n (SignalReceived d) = on_signal st n d"
| "handle st onChannelOpen n (IceCandidateFound None) = (n, [])"
| "handle st onChannelOpen n (IceCandidateFound (Some c)) =
     (n, [Emit (Signal (code n) (Ice c))])"
| "handle st onChannelOpen n DataChannelArrived = (n\<lparr>dataChannel := True\<rparr>, [SetupReceive])"
| "handle st onChannelOpen n ChannelOpened =
     (n, if onChannelOpen then [OnChannelOpen] else [])"
| "handle st onChannelOpen n ChannelFailed = (n, [ConsoleError])"

text \<open>A session: the call of \<^verbatim>\<open>createWebRTCConnection\<close>, then the events in order.\<close>

fun handle_all ::
  "stack \<Rightarrow> bool \<Rightarrow> negotiator \<Rightarrow> event list \<Rightarrow> negotiator \<times> pc_action list" where
  "handle_all st onChannelOpen n [] = (n, [])"
| "handle_all st onChannelOpen n (e # es) =
     (case handle st onChannelOpen n e of
        (n', as) \<Rightarrow>
          (case handle_all st onChannelOpen n' es of
             (n'', as') \<Rightarrow> (n'', as @ as')))"

definition session ::
  "stack \<Rightarrow> bool \<Rightarrow> string \<Rightarrow> bool \<Rightarrow> event list \<Rightarrow> negotiator \<times> pc_action list" where
  "session st onChannelOpen c receiver es =
     (case createWebRTCConnection c receiver of
        (n, as) \<Rightarrow>
          (case handle_all st onChannelOpen n es of
             (n', as') \<Rightarrow> (n', as @ as')))"

text \<open>The calls that generate an offer or send one.\<close>

fun offering :: "pc_action \<Rightarrow> bool" where
  "offering CreateOffer = True"
| "offering (Emit (Signal c (Offer d))) = True"
| "offering a = False"

section \<open>Two contracts of the receiver, as predicates\<close>

text \<open>
  The contract that the receiver completes whenever the bytes it has counted reach the
  size of the file being sent: at every message of \<open>fs\<close> after which
  \<^verbatim>\<open>receivedBytes\<close> equals the size of \<open>f\<close>, the handler has called the
  completion callback with the metadata of \<open>f\<close> and the bytes of \<open>f\<close>.
\<close>

definition completes_when_size_reached :: "bool \<Rightarrow> jsfile \<Rightarrow> frame list \<Rightarrow> bool" where
  "completes_when_size_reached onProgress f fs =
     list_all
       (\<lambda>n. case onmessage onProgress
                    (fst (deliver onProgress setupReceive (take n fs))) (fs ! n) of
               (r, cbs) \<Rightarrow>
                 receivedBytes r \<noteq> file_size f \<or>
                 (metadata_of f, Blob (file_bytes f) (file_type f)) \<in> set (completions cbs))
       [0..<length fs]"

text \<open>
  The contract that binary messages arriving before the first text message do not count
  towards completion: the completion callback is called as it would be had those
  messages never arrived.
\<close>

fun is_binary :: "frame \<Rightarrow> bool" where
  "is_binary (Binary d) = True"
| "is_binary (Text m) = False"

definition counts_only_after_metadata :: "bool \<Rightarrow> frame list \<Rightarrow> bool" where
  "counts_only_after_metadata onProgress fs =
     (map fst (completions (snd (deliver onProgress setupReceive fs))) =
      map fst (completions (snd (deliver onProgress setupReceive (dropWhile is_binary fs)))))"

section \<open>Example inputs\<close>

text \<open>
  A transport that takes one chunk out of the queue during every suspension, one that
  takes nothing, an open channel with an empty queue and one with a long queue, a
  channel that is still connecting, and three files: an empty one, one of three bytes
  and one of 150000 bytes.
\<close>

definition steady_transport :: environment where
  "steady_transport = \<lparr>drained = (\<lambda>t. 65536), encoded_length = (\<lambda>m. 64)\<rparr>"

definition stalled_transport :: environment where
  "stalled_transport = \<lparr>drained = (\<lambda>t. 0), encoded_length = (\<lambda>m. 64)\<rparr>"

definition idle_channel :: channel where
  "idle_channel = \<lparr>readyState = Open, bufferedAmount = 0\<rparr>"

definition congested_channel :: channel where
  "congested_channel = \<lparr>readyState = Open, bufferedAmount = 600000\<rparr>"

definition connecting_channel :: channel where
  "connecting_channel = \<lparr>readyState = Connecting, bufferedAmount = 0\<rparr>"

definition empty_file :: jsfile where
  "empty_file = \<lparr>file_name = ''empty.txt'', file_type = ''text/plain'', file_bytes = []\<rparr>"

definition small_file :: jsfile where
  "small_file = \<lparr>file_name = ''abc.bin'', file_type = ''application/octet-stream'',
                  file_bytes = [1, 2, 3]\<rparr>"

definition large_file :: jsfile where
  "large_file = \<lparr>file_name = ''files.zip'', file_type = ''application/zip'',
                  file_bytes = replicate 150000 0\<rparr>"

text \<open>The metadata of a file of two bytes.\<close>

definition two_byte_metadata :: metadata where
  "two_byte_metadata = \<lparr>filename = ''ab.bin'', msize = 2, mtype = ''application/octet-stream''\<rparr>"

text \<open>A peer-connection stack that yields descriptions and accepts whatever it is given.\<close>

definition willing_stack :: stack where
  "willing_stack =
     \<lparr>offer = Some ''v=0 offer'', answer = Some ''v=0 answer'',
      accepts_local = (\<lambda>d. True), accepts_remote = (\<lambda>d. True),
      accepts_candidate = (\<lambda>c. True)\<rparr>"

section \<open>Properties of the receiver\<close>

lemma deliver_append:
  "deliver op r (fs @ gs) =
     (case deliver op r fs of
        (r', cbs) \<Rightarrow> (case deliver op r' gs of (r'', cbs') \<Rightarrow> (r'', cbs @ cbs')))"
  by (induction fs arbitrary: r) (auto split: prod.splits)

lemma completions_append: "completions (xs @ ys) = completions xs @ completions ys"
  by (induction xs rule: completions.induct) auto

lemma progress_bytes_append: "progress_bytes (xs @ ys) = progress_bytes xs @ progress_bytes ys"
  by (induction xs rule: progress_bytes.induct) auto

lemma onmessage_receivedBytes_mono:
  "receivedBytes r \<le> receivedBytes (fst (onmessage op r f))"
  by (cases f) (simp_all add: Let_def)

lemma deliver_receivedBytes_mono:
  "receivedBytes r \<le> receivedBytes (fst (deliver op r fs))"
proof (induction fs arbitrary: r)
  case Nil
  show ?case by simp
next
  case (Cons f fs)
  obtain r' cbs where step: "onmessage op r f = (r', cbs)" by (cases "onmessage op r f")
  obtain r'' cbs' where rest: "deliver op r' fs = (r'', cbs')" by (cases "deliver op r' fs")
  have "receivedBytes r \<le> receivedBytes r'"
    using onmessage_receivedBytes_mono [of r op f] step by simp
  also have "\<dots> \<le> receivedBytes r''"
    using Cons.IH [of r'] rest by simp
  finally show ?case by (simp add: step rest)
qed

lemma onmessage_completion:
  assumes "(m, b) \<in> set (completions (snd (onmessage op r f)))"
  shows "\<exists>d. f = Binary d \<and> meta r = Some m \<and> receivedBytes r + length d = msize m
           \<and> b = Blob (concat (chunks r) @ d) (mtype m)"
  using assms by (cases f) (auto simp: Let_def split: option.splits if_splits)

lemma onmessage_completion_size:
  assumes "(m, b) \<in> set (completions (snd (onmessage op r f)))"
  shows "msize m = receivedBytes (fst (onmessage op r f))"
  using assms by (cases f) (auto simp: Let_def split: option.splits if_splits)

lemma deliver_completion_size:
  "(m, b) \<in> set (completions (snd (deliver op r fs))) \<Longrightarrow> receivedBytes r \<le> msize m"
proof (induction fs arbitrary: r)
  case Nil
  then show ?case by simp
next
  case (Cons f fs)
  obtain r' cbs where step: "onmessage op r f = (r', cbs)" by (cases "onmessage op r f")
  obtain r'' cbs' where rest: "deliver op r' fs = (r'', cbs')" by (cases "deliver op r' fs")
  from Cons.prems step rest
  consider "(m, b) \<in> set (completions cbs)" | "(m, b) \<in> set (completions cbs')"
    by (auto simp: completions_append)
  then show ?case
  proof cases
    case 1
    with step have "msize m = receivedBytes r'"
      using onmessage_completion_size [of m b op r f] by simp
    moreover have "receivedBytes r \<le> receivedBytes r'"
      using onmessage_receivedBytes_mono [of r op f] step by simp
    ultimately show ?thesis by simp
  next
    case 2
    with rest have "receivedBytes r' \<le> msize m"
      using Cons.IH [of r'] by simp
    moreover have "receivedBytes r \<le> receivedBytes r'"
      using onmessage_receivedBytes_mono [of r op f] step by simp
    ultimately show ?thesis by simp
  qed
qed

lemma deliver_binary_no_meta:
  "meta r = None \<Longrightarrow>
   deliver op r (map Binary ds) =
     (r\<lparr>chunks := chunks r @ ds, receivedBytes := receivedBytes r + length (concat ds)\<rparr>, [])"
  by (induction ds arbitrary: r) (simp_all add: Let_def)

lemma onmessage_progress_bytes:
  "n \<in> set (progress_bytes (snd (onmessage op r f))) \<Longrightarrow> n = receivedBytes (fst (onmessage op r f))"
  by (cases f) (auto simp: Let_def split: option.splits if_splits)

lemma onmessage_progress_sorted: "sorted (progress_bytes (snd (onmessage op r f)))"
  by (cases f) (auto simp: Let_def split: option.splits if_splits)

lemma deliver_progress_bytes_lower:
  "n \<in> set (progress_bytes (snd (deliver op r fs))) \<Longrightarrow> receivedBytes r \<le> n"
proof (induction fs arbitrary: r)
  case Nil
  then show ?case by simp
next
  case (Cons f fs)
  obtain r' cbs where step: "onmessage op r f = (r', cbs)" by (cases "onmessage op r f")
  obtain r'' cbs' where rest: "deliver op r' fs = (r'', cbs')" by (cases "deliver op r' fs")
  have mono: "receivedBytes r \<le> receivedBytes r'"
    using onmessage_receivedBytes_mono [of r op f] step by simp
  from Cons.prems step rest
  consider "n \<in> set (progress_bytes cbs)" | "n \<in> set (progress_bytes cbs')"
    by (auto simp: progress_bytes_append)
  then show ?case
  proof cases
    case 1
    then have "n = receivedBytes r'"
      using onmessage_progress_bytes [of n op r f] step by simp
    with mono show ?thesis by simp
  next
    case 2
    then have "receivedBytes r' \<le> n" using Cons.IH [of r'] rest by simp
    with mono show ?thesis by simp
  qed
qed

lemma deliver_progress_sorted: "sorted (progress_bytes (snd (deliver op r fs)))"
proof (induction fs arbitrary: r)
  case Nil
  show ?case by simp
next
  case (Cons f fs)
  obtain r' cbs where step: "onmessage op r f = (r', cbs)" by (cases "onmessage op r f")
  obtain r'' cbs' where rest: "deliver op r' fs = (r'', cbs')" by (cases "deliver op r' fs")
  have s1: "sorted (progress_bytes cbs)"
    using onmessage_progress_sorted [of op r f] step by simp
  have s2: "sorted (progress_bytes cbs')"
    using Cons.IH [of r'] rest by simp
  have "x \<le> y" if "x \<in> set (progress_bytes cbs)" and "y \<in> set (progress_bytes cbs')" for x y
  proof -
    have "x = receivedBytes r'"
      using that(1) onmessage_progress_bytes [of x op r f] step by simp
    moreover have "receivedBytes r' \<le> y"
      using that(2) deliver_progress_bytes_lower [of y op r' fs] rest by simp
    ultimately show ?thesis by simp
  qed
  with s1 s2 show ?case
    by (simp add: step rest progress_bytes_append sorted_append)
qed

section \<open>Properties of the sender\<close>

subsection \<open>Unfolding the outer loop\<close>

lemma send_loop_done:
  "\<not> offset < file_size f \<Longrightarrow> send_loop fuel env f sp offset s = (Resolved, s)"
  by (subst send_loop.simps) simp

lemma send_loop_pending:
  "offset < file_size f \<Longrightarrow> backpressure fuel env s = (None, s1) \<Longrightarrow>
   send_loop fuel env f sp offset s = (Pending, s1)"
  by (subst send_loop.simps) simp

lemma send_loop_rejected:
  "offset < file_size f \<Longrightarrow> backpressure fuel env s = (Some fuel', s1) \<Longrightarrow>
   readyState (dc s1) \<noteq> Open \<Longrightarrow>
   send_loop fuel env f sp offset s = (Rejected InvalidStateError, await env s1)"
  by (subst send_loop.simps) (simp add: dc_send_def await_def Let_def)

lemma send_loop_next:
  "offset < file_size f \<Longrightarrow> backpressure fuel env s = (Some fuel', s1) \<Longrightarrow>
   readyState (dc s1) = Open \<Longrightarrow>
   send_loop fuel env f sp offset s =
     send_loop fuel' env f sp (offset + CHUNK_SIZE) (chunk_step env f sp offset s1)"
  by (subst send_loop.simps)
     (simp add: dc_send_def await_def Let_def chunk_step_def)

lemma chunk_step_dc:
  "readyState (dc s) = Open \<Longrightarrow>
   dc (chunk_step env f sp offset s) =
     \<lparr>readyState = Open,
      bufferedAmount = bufferedAmount (dc s) - drained env (suspensions s) +
                       length (file_slice f offset (offset + CHUNK_SIZE))\<rparr>"
  by (simp add: chunk_step_def dc_send_def await_def frame_length_def)

lemma chunk_step_effects:
  "readyState (dc s) = Open \<Longrightarrow>
   effects (chunk_step env f sp offset s) =
     effects s @
     Send (Binary (file_slice f offset (offset + CHUNK_SIZE)))
          (bufferedAmount (dc s) - drained env (suspensions s)) #
     (if sp then [SetProgress (percent (offset + CHUNK_SIZE) (file_size f))
                    (offset + CHUNK_SIZE)]
      else [])"
  by (simp add: chunk_step_def dc_send_def await_def frame_length_def)

lemma send_loop_cases_induct [case_names turn]:
  assumes "\<And>fuel offset s.
             (\<And>fuel' s1. offset < file_size f \<Longrightarrow> backpressure fuel env s = (Some fuel', s1) \<Longrightarrow>
                 readyState (dc s1) = Open \<Longrightarrow>
                 P fuel' (offset + CHUNK_SIZE) (chunk_step env f sp offset s1))
             \<Longrightarrow> P fuel offset s"
  shows "P fuel offset s"
  using assms
proof (induction fuel env f sp offset s rule: send_loop.induct)
  case (1 fuel env f sp offset s)
  show ?case
  proof (rule "1.prems")
    fix fuel' s1
    assume a: "offset < file_size f" "backpressure fuel env s = (Some fuel', s1)"
      "readyState (dc s1) = Open"
    obtain s3 where s3: "dc_send env (Binary (file_slice f offset (offset + CHUNK_SIZE))) (await env s1) = Inr s3"
      using a(3) by (simp add: dc_send_def await_def)
    have "P fuel' (offset + CHUNK_SIZE)
            (if sp then s3\<lparr>effects := effects s3 @
                  [SetProgress (percent (offset + CHUNK_SIZE) (file_size f))
                     (offset + CHUNK_SIZE)]\<rparr> else s3)"
      by (rule "1.IH" [OF a(1) a(2) [symmetric] refl refl refl s3 refl refl]) (rule "1.prems")
    then show "P fuel' (offset + CHUNK_SIZE) (chunk_step env f sp offset s1)"
      by (simp add: chunk_step_def s3)
  qed
qed

subsection \<open>The wait\<close>

lemma backpressure_readyState:
  "readyState (dc (snd (backpressure fuel env s))) = readyState (dc s)"
  by (induction fuel arbitrary: s) (simp_all add: await_def)

lemma backpressure_Some:
  "backpressure fuel env s = (Some fuel', s') \<Longrightarrow>
   bufferedAmount (dc s') \<le> CHUNK_SIZE * 8 \<and> fuel' \<le> fuel \<and>
   effects s' = effects s @ replicate (fuel - fuel') (SetTimeout 20) \<and>
   (fuel' = fuel \<longleftrightarrow> bufferedAmount (dc s) \<le> CHUNK_SIZE * 8)"
proof (induction fuel arbitrary: s)
  case 0
  then show ?case by (simp split: if_splits)
next
  case (Suc n)
  show ?case
  proof (cases "bufferedAmount (dc s) > CHUNK_SIZE * 8")
    case False
    with Suc.prems show ?thesis by simp
  next
    case True
    let ?t = "await env (s\<lparr>effects := effects s @ [SetTimeout 20]\<rparr>)"
    from True Suc.prems have "backpressure n env ?t = (Some fuel', s')" by simp
    from Suc.IH [OF this] have
      ih: "bufferedAmount (dc s') \<le> CHUNK_SIZE * 8" "fuel' \<le> n"
          "effects s' = effects ?t @ replicate (n - fuel') (SetTimeout 20)"
      by simp_all
    have "effects ?t = effects s @ [SetTimeout 20]" by (simp add: await_def)
    with ih(2,3) have "effects s' = effects s @ replicate (Suc n - fuel') (SetTimeout 20)"
      by (simp add: Suc_diff_le replicate_append_same)
    with ih True show ?thesis by simp
  qed
qed

lemma backpressure_timers:
  "\<exists>k. effects (snd (backpressure fuel env s)) = effects s @ replicate k (SetTimeout 20)"
proof (induction fuel arbitrary: s)
  case 0
  show ?case by (rule exI [of _ 0]) simp
next
  case (Suc n)
  show ?case
  proof (cases "bufferedAmount (dc s) > CHUNK_SIZE * 8")
    case False
    then show ?thesis by (intro exI [of _ 0]) simp
  next
    case True
    let ?t = "await env (s\<lparr>effects := effects s @ [SetTimeout 20]\<rparr>)"
    from Suc.IH [of ?t] obtain k where
      "effects (snd (backpressure n env ?t)) = effects ?t @ replicate k (SetTimeout 20)" ..
    moreover have "effects ?t = effects s @ [SetTimeout 20]" by (simp add: await_def)
    ultimately have "effects (snd (backpressure (Suc n) env s)) =
        effects s @ replicate (Suc k) (SetTimeout 20)"
      using True by (simp add: replicate_append_same)
    then show ?thesis ..
  qed
qed

lemma backpressure_live:
  assumes "\<forall>t. 0 < drained env t"
  shows "bufferedAmount (dc s) + x \<le> fuel \<Longrightarrow>
         \<exists>fuel' s'. backpressure fuel env s = (Some fuel', s') \<and>
                    bufferedAmount (dc s') + x \<le> fuel'"
proof (induction fuel arbitrary: s)
  case 0
  then show ?case by simp
next
  case (Suc n)
  show ?case
  proof (cases "bufferedAmount (dc s) > CHUNK_SIZE * 8")
    case False
    with Suc.prems show ?thesis by simp
  next
    case True
    let ?t = "await env (s\<lparr>effects := effects s @ [SetTimeout 20]\<rparr>)"
    have "0 < drained env (suspensions s)" using assms by simp
    moreover have "0 < bufferedAmount (dc s)" using True by simp
    ultimately have "bufferedAmount (dc ?t) < bufferedAmount (dc s)"
      by (simp add: await_def)
    with Suc.prems have "bufferedAmount (dc ?t) + x \<le> n" by simp
    from Suc.IH [OF this] True show ?thesis by simp
  qed
qed

subsection \<open>Effects of the loop\<close>

lemma written_append: "written (xs @ ys) = written xs @ written ys"
  by (induction xs rule: written.induct) auto

lemma progress_calls_append: "progress_calls (xs @ ys) = progress_calls xs @ progress_calls ys"
  by (induction xs rule: progress_calls.induct) auto

lemma written_timers: "written (replicate k (SetTimeout ms)) = []"
  by (induction k) auto

lemma progress_calls_timers: "progress_calls (replicate k (SetTimeout ms)) = []"
  by (induction k) auto

lemma disciplined_timers: "list_all disciplined (replicate k (SetTimeout 20))"
  by (induction k) auto

lemma backpressure_disciplined:
  "list_all disciplined (effects s) \<Longrightarrow>
   list_all disciplined (effects (snd (backpressure fuel env s)))"
  using backpressure_timers [of fuel env s] by (auto simp: disciplined_timers)

lemma backpressure_written:
  "written (effects (snd (backpressure fuel env s))) = written (effects s)"
  using backpressure_timers [of fuel env s] by (auto simp: written_append written_timers)

lemma backpressure_progress_calls:
  "progress_calls (effects (snd (backpressure fuel env s))) = progress_calls (effects s)"
  using backpressure_timers [of fuel env s]
  by (auto simp: progress_calls_append progress_calls_timers)

lemma await_effects: "effects (await env s) = effects s"
  by (simp add: await_def)

lemma send_loop_disciplined:
  "list_all disciplined (effects s) \<Longrightarrow>
   list_all disciplined (effects (snd (send_loop fuel env f sp offset s)))"
proof (induction fuel offset s rule: send_loop_cases_induct [where f = f and env = env and sp = sp])
  case (turn fuel offset s)
  show ?case
  proof (cases "offset < file_size f")
    case False
    with turn.prems show ?thesis by (simp add: send_loop_done)
  next
    case True
    obtain res s1 where bp: "backpressure fuel env s = (res, s1)"
      by (cases "backpressure fuel env s")
    have d1: "list_all disciplined (effects s1)"
      using backpressure_disciplined [OF turn.prems, of fuel env] bp by simp
    show ?thesis
    proof (cases res)
      case None
      with True bp d1 show ?thesis by (simp add: send_loop_pending)
    next
      case (Some fuel')
      show ?thesis
      proof (cases "readyState (dc s1) = Open")
        case False
        with True bp Some d1 show ?thesis
          by (simp add: send_loop_rejected await_effects)
      next
        case open1: True
        have "bufferedAmount (dc s1) \<le> CHUNK_SIZE * 8"
          using backpressure_Some [of fuel env s fuel' s1] bp Some by simp
        then have "bufferedAmount (dc s1) - drained env (suspensions s1) \<le> 8 * 65536"
          by (simp add: CHUNK_SIZE_def)
        with d1 open1 have "list_all disciplined (effects (chunk_step env f sp offset s1))"
          by (simp add: chunk_step_effects)
        from turn.IH [OF True _ open1 this] bp Some True open1 show ?thesis
          by (simp add: send_loop_next)
      qed
    qed
  qed
qed

lemma send_loop_written:
  "readyState (dc s) = Open \<Longrightarrow> send_loop fuel env f sp offset s = (Resolved, s') \<Longrightarrow>
   written (effects s') = written (effects s) @ map Binary (slices f offset)"
proof (induction fuel offset s rule: send_loop_cases_induct [where f = f and env = env and sp = sp])
  case (turn fuel offset s)
  show ?case
  proof (cases "offset < file_size f")
    case False
    with turn.prems show ?thesis by (simp add: send_loop_done slices.simps [of f offset])
  next
    case True
    obtain res s1 where bp: "backpressure fuel env s = (res, s1)"
      by (cases "backpressure fuel env s")
    have open1: "readyState (dc s1) = Open"
      using backpressure_readyState [of fuel env s] bp turn.prems(1) by simp
    have w1: "written (effects s1) = written (effects s)"
      using backpressure_written [of fuel env s] bp by simp
    show ?thesis
    proof (cases res)
      case None
      with True bp turn.prems show ?thesis by (simp add: send_loop_pending)
    next
      case (Some fuel')
      have o2: "readyState (dc (chunk_step env f sp offset s1)) = Open"
        using open1 by (simp add: chunk_step_dc)
      have "send_loop fuel' env f sp (offset + CHUNK_SIZE) (chunk_step env f sp offset s1)
              = (Resolved, s')"
        using turn.prems(2) True bp Some open1 by (simp add: send_loop_next)
      from turn.IH [OF True _ open1 o2 this] bp Some
      have "written (effects s') =
              written (effects (chunk_step env f sp offset s1)) @
              map Binary (slices f (offset + CHUNK_SIZE))"
        by simp
      also have "written (effects (chunk_step env f sp offset s1)) =
                   written (effects s) @ [Binary (file_slice f offset (offset + CHUNK_SIZE))]"
        using open1 w1 by (simp add: chunk_step_effects written_append)
      finally show ?thesis using True by (simp add: slices.simps [of f offset])
    qed
  qed
qed

lemma send_loop_not_rejected:
  "readyState (dc s) = Open \<Longrightarrow> fst (send_loop fuel env f sp offset s) \<noteq> Rejected e"
proof (induction fuel offset s rule: send_loop_cases_induct [where f = f and env = env and sp = sp])
  case (turn fuel offset s)
  show ?case
  proof (cases "offset < file_size f")
    case False
    then show ?thesis by (simp add: send_loop_done)
  next
    case True
    obtain res s1 where bp: "backpressure fuel env s = (res, s1)"
      by (cases "backpressure fuel env s")
    have open1: "readyState (dc s1) = Open"
      using backpressure_readyState [of fuel env s] bp turn.prems(1) by simp
    show ?thesis
    proof (cases res)
      case None
      with True bp show ?thesis by (simp add: send_loop_pending)
    next
      case (Some fuel')
      have o2: "readyState (dc (chunk_step env f sp offset s1)) = Open"
        using open1 by (simp add: chunk_step_dc)
      from turn.IH [OF True _ open1 o2] bp Some True open1 show ?thesis
        by (simp add: send_loop_next)
    qed
  qed
qed

lemma file_slice_length:
  "length (file_slice f offset (offset + CHUNK_SIZE)) = min CHUNK_SIZE (file_size f - offset)"
  by (auto simp: file_slice_def file_size_def Let_def min_def)

lemma send_loop_live:
  assumes live: "\<forall>t. 0 < drained env t"
  shows "readyState (dc s) = Open \<Longrightarrow> bufferedAmount (dc s) + (file_size f - offset) \<le> fuel \<Longrightarrow>
         fst (send_loop fuel env f sp offset s) = Resolved"
proof (induction fuel offset s rule: send_loop_cases_induct [where f = f and env = env and sp = sp])
  case (turn fuel offset s)
  show ?case
  proof (cases "offset < file_size f")
    case False
    then show ?thesis by (simp add: send_loop_done)
  next
    case True
    from backpressure_live [OF live turn.prems(2)] obtain fuel' s1 where
      bp: "backpressure fuel env s = (Some fuel', s1)" and
      le: "bufferedAmount (dc s1) + (file_size f - offset) \<le> fuel'"
      by blast
    have open1: "readyState (dc s1) = Open"
      using backpressure_readyState [of fuel env s] bp turn.prems(1) by simp
    have o2: "readyState (dc (chunk_step env f sp offset s1)) = Open"
      using open1 by (simp add: chunk_step_dc)
    have "bufferedAmount (dc (chunk_step env f sp offset s1)) +
            (file_size f - (offset + CHUNK_SIZE)) \<le> fuel'"
    proof -
      have "bufferedAmount (dc (chunk_step env f sp offset s1)) =
              bufferedAmount (dc s1) - drained env (suspensions s1) +
              min CHUNK_SIZE (file_size f - offset)"
        using open1 by (simp add: chunk_step_dc file_slice_length)
      with le show ?thesis by arith
    qed
    from turn.IH [OF True bp open1 o2 this] True bp open1 show ?thesis
      by (simp add: send_loop_next)
  qed
qed

subsection \<open>The slices of a file\<close>

lemma CHUNK_SIZE_pos: "0 < CHUNK_SIZE"
  by (simp add: CHUNK_SIZE_def)

lemma file_slice_take_drop:
  "offset < file_size f \<Longrightarrow>
   file_slice f offset (offset + CHUNK_SIZE) = take CHUNK_SIZE (drop offset (file_bytes f))"
  by (simp add: file_slice_def file_size_def Let_def min_def)

lemma slices_concat: "concat (slices f offset) = drop offset (file_bytes f)"
proof (induction f offset rule: slices.induct)
  case (1 f offset)
  show ?case
  proof (cases "offset < file_size f")
    case False
    then show ?thesis by (simp add: slices.simps [of f offset] file_size_def)
  next
    case True
    let ?rest = "drop offset (file_bytes f)"
    have "drop (offset + CHUNK_SIZE) (file_bytes f) = drop CHUNK_SIZE ?rest"
      by (simp add: add.commute)
    with True "1.IH" have "concat (slices f offset) = take CHUNK_SIZE ?rest @ drop CHUNK_SIZE ?rest"
      by (simp add: slices.simps [of f offset] file_slice_take_drop)
    then show ?thesis by (simp only: append_take_drop_id)
  qed
qed

lemma slices_nonempty: "d \<in> set (slices f offset) \<Longrightarrow> d \<noteq> []"
proof (induction f offset rule: slices.induct)
  case (1 f offset)
  show ?case
  proof (cases "offset < file_size f")
    case False
    with "1.prems" show ?thesis by (simp add: slices.simps [of f offset])
  next
    case True
    have "file_slice f offset (offset + CHUNK_SIZE) \<noteq> []"
      using True CHUNK_SIZE_pos by (simp add: file_slice_take_drop file_size_def)
    with True "1.prems" "1.IH" show ?thesis
      by (auto simp: slices.simps [of f offset])
  qed
qed

lemma ceiling_step:
  fixes C x :: nat
  assumes "0 < C" and "0 < x"
  shows "(x + (C - 1)) div C = Suc ((x - C + (C - 1)) div C)"
proof (cases "C \<le> x")
  case True
  then have "x + (C - 1) = (x - C + (C - 1)) + C" by simp
  then have "(x + (C - 1)) div C = ((x - C + (C - 1)) + C) div C" by (rule arg_cong)
  also have "\<dots> = (x - C + (C - 1)) div C + 1"
    using assms(1) by (simp only: div_add_self2 neq0_conv)
  finally show ?thesis by simp
next
  case False
  with assms have eq: "x + (C - 1) = C + (x - 1)" and lt: "x - 1 < C" "x - C + (C - 1) < C"
    by simp_all
  have "(x + (C - 1)) div C = (C + (x - 1)) div C" by (simp only: eq)
  also have "\<dots> = (x - 1) div C + 1"
    using assms(1) by (simp only: div_add_self1 neq0_conv)
  also have "\<dots> = Suc ((x - C + (C - 1)) div C)"
    using lt by (simp only: div_less)
  finally show ?thesis .
qed

lemma slices_length:
  "length (slices f offset) = (file_size f - offset + (CHUNK_SIZE - 1)) div CHUNK_SIZE"
proof (induction f offset rule: slices.induct)
  case (1 f offset)
  show ?case
  proof (cases "offset < file_size f")
    case False
    then show ?thesis by (simp add: slices.simps [of f offset] CHUNK_SIZE_def)
  next
    case True
    have "length (slices f offset) = Suc (length (slices f (offset + CHUNK_SIZE)))"
      using True by (simp add: slices.simps [of f offset])
    also have "length (slices f (offset + CHUNK_SIZE)) =
                 (file_size f - (offset + CHUNK_SIZE) + (CHUNK_SIZE - 1)) div CHUNK_SIZE"
      using True by (rule "1.IH")
    also have "file_size f - (offset + CHUNK_SIZE) = file_size f - offset - CHUNK_SIZE"
      by simp
    also have "Suc ((file_size f - offset - CHUNK_SIZE + (CHUNK_SIZE - 1)) div CHUNK_SIZE) =
                 (file_size f - offset + (CHUNK_SIZE - 1)) div CHUNK_SIZE"
      using True by (intro ceiling_step [symmetric] CHUNK_SIZE_pos) simp
    finally show ?thesis .
  qed
qed

lemma slices_nth:
  "i < length (slices f offset) \<Longrightarrow>
   slices f offset ! i = take CHUNK_SIZE (drop (offset + i * CHUNK_SIZE) (file_bytes f))"
proof (induction f offset arbitrary: i rule: slices.induct)
  case (1 f offset)
  show ?case
  proof (cases "offset < file_size f")
    case False
    with "1.prems" show ?thesis by (simp add: slices.simps [of f offset])
  next
    case True
    show ?thesis
    proof (cases i)
      case 0
      with True show ?thesis by (simp add: slices.simps [of f offset] file_slice_take_drop)
    next
      case (Suc j)
      with "1.prems" True have "j < length (slices f (offset + CHUNK_SIZE))"
        by (simp add: slices.simps [of f offset])
      from "1.IH" [OF True this] Suc True show ?thesis
        by (simp add: slices.simps [of f offset] add.assoc)
    qed
  qed
qed

subsection \<open>The whole call, and its messages at the receiver\<close>

lemma run_open:
  "readyState c = Open \<Longrightarrow>
   sendFileOverRTC fuel env f (Some c) sp =
     (case send_loop fuel env f sp 0 (started env f c) of
        (out, s') \<Rightarrow> (out, Some (dc s'), effects s'))"
  by (simp add: sendFileOverRTC_def sendFileOverRTC_body_def dc_send_def started_def
        frame_length_def split_beta)

lemma run_not_open:
  "not_open c \<Longrightarrow> sendFileOverRTC fuel env f c sp = (Rejected DataChannelNotOpen, c, [])"
  by (simp add: sendFileOverRTC_def sendFileOverRTC_body_def not_open_def
        split: option.splits)

lemma body_open:
  "readyState c = Open \<Longrightarrow>
   sendFileOverRTC_body fuel env f (Some c) sp =
     (case send_loop fuel env f sp 0 (started env f c) of
        (out, s') \<Rightarrow> (out, Some (dc s'), effects s', suspensions s'))"
  by (simp add: sendFileOverRTC_body_def dc_send_def started_def frame_length_def)

lemma body_not_open:
  "not_open c \<Longrightarrow>
   sendFileOverRTC_body fuel env f c sp = (Rejected DataChannelNotOpen, c, [], 0)"
  by (simp add: sendFileOverRTC_body_def not_open_def split: option.splits)

lemma started_open: "readyState c = Open \<Longrightarrow> readyState (dc (started env f c)) = Open"
  by (simp add: started_def)

lemma send_loop_progress_calls:
  "readyState (dc s) = Open \<Longrightarrow> send_loop fuel env f sp offset s = (Resolved, s') \<Longrightarrow>
   progress_calls (effects s') =
     progress_calls (effects s) @
     (if sp
      then map (\<lambda>i. (percent (offset + Suc i * CHUNK_SIZE) (file_size f),
                      offset + Suc i * CHUNK_SIZE))
             [0..<length (slices f offset)]
      else [])"
proof (induction fuel offset s rule: send_loop_cases_induct [where f = f and env = env and sp = sp])
  case (turn fuel offset s)
  show ?case
  proof (cases "offset < file_size f")
    case False
    with turn.prems show ?thesis by (simp add: send_loop_done slices.simps [of f offset])
  next
    case True
    obtain res s1 where bp: "backpressure fuel env s = (res, s1)"
      by (cases "backpressure fuel env s")
    have open1: "readyState (dc s1) = Open"
      using backpressure_readyState [of fuel env s] bp turn.prems(1) by simp
    have p1: "progress_calls (effects s1) = progress_calls (effects s)"
      using backpressure_progress_calls [of fuel env s] bp by simp
    show ?thesis
    proof (cases res)
      case None
      with True bp turn.prems show ?thesis by (simp add: send_loop_pending)
    next
      case (Some fuel')
      let ?n = "length (slices f (offset + CHUNK_SIZE))"
      let ?g = "\<lambda>a i. (percent (a + Suc i * CHUNK_SIZE) (file_size f), a + Suc i * CHUNK_SIZE)"
      have o2: "readyState (dc (chunk_step env f sp offset s1)) = Open"
        using open1 by (simp add: chunk_step_dc)
      have "send_loop fuel' env f sp (offset + CHUNK_SIZE) (chunk_step env f sp offset s1)
              = (Resolved, s')"
        using turn.prems(2) True bp Some open1 by (simp add: send_loop_next)
      from turn.IH [OF True _ open1 o2 this] bp Some
      have ih: "progress_calls (effects s') =
              progress_calls (effects (chunk_step env f sp offset s1)) @
              (if sp then map (?g (offset + CHUNK_SIZE)) [0..<?n] else [])"
        by simp
      have len: "length (slices f offset) = Suc ?n"
        using True by (simp add: slices.simps [of f offset])
      have "map (?g offset) [0..<Suc ?n] = ?g offset 0 # map (?g offset \<circ> Suc) [0..<?n]"
        by (simp only: upt_conv_Cons [of 0 "Suc ?n"] map_Suc_upt [symmetric] list.map map_map)
      also have "map (?g offset \<circ> Suc) [0..<?n] = map (?g (offset + CHUNK_SIZE)) [0..<?n]"
        by (simp add: add.assoc)
      finally have split: "map (?g offset) [0..<length (slices f offset)] =
          ?g offset 0 # map (?g (offset + CHUNK_SIZE)) [0..<?n]"
        using len by simp
      show ?thesis
      proof (cases sp)
        case True
        with ih open1 p1 split show ?thesis
          by (simp add: chunk_step_effects progress_calls_append)
      next
        case False
        with ih open1 p1 show ?thesis
          by (simp add: chunk_step_effects progress_calls_append)
      qed
    qed
  qed
qed

lemma send_loop_progress_sorted:
  "sorted (map snd (progress_calls (effects s))) \<Longrightarrow>
   (\<forall>n \<in> set (map snd (progress_calls (effects s))). n \<le> offset) \<Longrightarrow>
   sorted (map snd (progress_calls (effects (snd (send_loop fuel env f sp offset s)))))"
proof (induction fuel offset s rule: send_loop_cases_induct [where f = f and env = env and sp = sp])
  case (turn fuel offset s)
  show ?case
  proof (cases "offset < file_size f")
    case False
    with turn.prems show ?thesis by (simp add: send_loop_done)
  next
    case True
    obtain res s1 where bp: "backpressure fuel env s = (res, s1)"
      by (cases "backpressure fuel env s")
    have p1: "progress_calls (effects s1) = progress_calls (effects s)"
      using backpressure_progress_calls [of fuel env s] bp by simp
    show ?thesis
    proof (cases res)
      case None
      with True bp turn.prems p1 show ?thesis by (simp add: send_loop_pending)
    next
      case (Some fuel')
      show ?thesis
      proof (cases "readyState (dc s1) = Open")
        case False
        with True bp Some turn.prems p1 show ?thesis
          by (simp add: send_loop_rejected await_effects)
      next
        case open1: True
        let ?s4 = "chunk_step env f sp offset s1"
        have calls: "map snd (progress_calls (effects ?s4)) =
                       map snd (progress_calls (effects s)) @
                       (if sp then [offset + CHUNK_SIZE] else [])"
          using open1 p1 by (simp add: chunk_step_effects progress_calls_append)
        have a: "sorted (map snd (progress_calls (effects ?s4)))"
          using turn.prems unfolding calls by (auto simp: sorted_append)
        have b: "\<forall>n \<in> set (map snd (progress_calls (effects ?s4))). n \<le> offset + CHUNK_SIZE"
          using turn.prems(2) unfolding calls by auto
        from turn.IH [OF True _ open1 a b] bp Some True open1 show ?thesis
          by (simp add: send_loop_next)
      qed
    qed
  qed
qed

lemma deliver_Cons_fst:
  "fst (deliver op r (f # fs)) = fst (deliver op (fst (onmessage op r f)) fs)"
  by (simp split: prod.splits)

lemma deliver_Cons_snd:
  "snd (deliver op r (f # fs)) =
     snd (onmessage op r f) @ snd (deliver op (fst (onmessage op r f)) fs)"
  by (simp split: prod.splits)

lemma deliver_binary_state:
  "fst (deliver op r (map Binary ds)) =
     r\<lparr>chunks := chunks r @ ds, receivedBytes := receivedBytes r + length (concat ds)\<rparr>"
proof (induction ds arbitrary: r)
  case Nil
  show ?case by simp
next
  case (Cons d ds)
  show ?case
    unfolding list.map deliver_Cons_fst Cons.IH by (simp add: Let_def)
qed

lemma deliver_binary_complete:
  "meta r = Some m \<Longrightarrow> \<forall>d \<in> set ds. d \<noteq> [] \<Longrightarrow> ds \<noteq> [] \<Longrightarrow>
   receivedBytes r + length (concat ds) = msize m \<Longrightarrow>
   completions (snd (deliver op r (map Binary ds))) =
     [(m, Blob (concat (chunks r @ ds)) (mtype m))]"
proof (induction ds arbitrary: r)
  case Nil
  then show ?case by simp
next
  case (Cons d ds)
  let ?r = "r\<lparr>chunks := chunks r @ [d], receivedBytes := receivedBytes r + length d\<rparr>"
  show ?case
  proof (cases "ds = []")
    case True
    with Cons.prems show ?thesis
      by (simp add: Let_def)
  next
    case False
    then obtain e es where "ds = e # es" by (cases ds) auto
    moreover from this have "e \<noteq> []" using Cons.prems(2) by simp
    ultimately have "0 < length (concat ds)" by simp
    moreover have "receivedBytes r + (length d + length (concat ds)) = msize m"
      using Cons.prems(4) by simp
    ultimately have less: "receivedBytes r + length d \<noteq> msize m" by arith
    have "completions (snd (deliver op ?r (map Binary ds))) =
            [(m, Blob (concat (chunks ?r @ ds)) (mtype m))]"
      using Cons.prems False by (intro Cons.IH) auto
    with less Cons.prems(1) show ?thesis
      unfolding list.map deliver_Cons_snd completions_append
      by (simp add: Let_def)
  qed
qed

subsection \<open>Evaluating a call on a given input\<close>

lemmas run_eval = sendFileOverRTC_def sendFileOverRTC_body_def dc_send_def frame_length_def
  send_loop.simps file_size_def await_def file_slice_def CHUNK_SIZE_def
  metadata_of_def percent_def js_div_def Let_def

lemma run_resolved_written:
  assumes "readyState c = Open"
    and "fst (sendFileOverRTC fuel env f (Some c) sp) = Resolved"
  shows "written (snd (snd (sendFileOverRTC fuel env f (Some c) sp))) =
           Text (metadata_of f) # map Binary (slices f 0)"
proof -
  obtain s' where loop: "send_loop fuel env f sp 0 (started env f c) = (Resolved, s')"
    using assms by (cases "send_loop fuel env f sp 0 (started env f c)")
                   (simp add: run_open)
  have "written (effects s') =
          written (effects (started env f c)) @ map Binary (slices f 0)"
    using started_open [OF assms(1)] loop by (rule send_loop_written)
  then show ?thesis using assms(1) loop by (simp add: run_open started_def)
qed

lemma run_live:
  assumes "readyState c = Open" and "\<forall>t. 0 < drained env t"
  shows "fst (sendFileOverRTC
                (bufferedAmount c + encoded_length env (metadata_of f) + file_size f)
                env f (Some c) sp) = Resolved"
proof -
  have "fst (send_loop (bufferedAmount c + encoded_length env (metadata_of f) + file_size f)
               env f sp 0 (started env f c)) = Resolved"
    using assms(2) started_open [OF assms(1)]
    by (rule send_loop_live) (simp add: started_def)
  then show ?thesis using assms(1) by (simp add: run_open split_beta)
qed

lemma ceiling_div:
  fixes C S :: nat
  assumes "0 < C"
  shows "(S + (C - 1)) div C = S div C + (if S mod C = 0 then 0 else 1)"
proof -
  have "S + (C - 1) = (S mod C + (C - 1)) + C * (S div C)" by simp
  then have "(S + (C - 1)) div C = ((S mod C + (C - 1)) + C * (S div C)) div C"
    by (rule arg_cong)
  also have "\<dots> = S div C + (S mod C + (C - 1)) div C"
    using assms by (simp only: div_mult_self2 neq0_conv)
  also have "(S mod C + (C - 1)) div C = (if S mod C = 0 then 0 else 1)"
  proof (cases "S mod C = 0")
    case True
    with assms show ?thesis by simp
  next
    case False
    have "S mod C < C" using assms by simp
    with False have eq: "S mod C + (C - 1) = C + (S mod C - 1)" and lt: "S mod C - 1 < C"
      by simp_all
    have "(S mod C + (C - 1)) div C = (C + (S mod C - 1)) div C" by (simp only: eq)
    also have "\<dots> = (S mod C - 1) div C + 1"
      using assms by (simp only: div_add_self1 neq0_conv)
    also have "\<dots> = 1" using lt by (simp only: div_less)
    finally show ?thesis using False by simp
  qed
  finally show ?thesis .
qed

lemma slices_whole_length:
  "length (slices f 0) = (file_size f + (CHUNK_SIZE - 1)) div CHUNK_SIZE"
  by (simp add: slices_length)

lemma slices_full_length:
  assumes "Suc i < length (slices f 0)"
  shows "length (slices f 0 ! i) = CHUNK_SIZE"
proof -
  have "Suc (Suc i) \<le> (file_size f + (CHUNK_SIZE - 1)) div CHUNK_SIZE"
    using assms by (simp add: slices_whole_length)
  then have "Suc (Suc i) * CHUNK_SIZE \<le> file_size f + (CHUNK_SIZE - 1)"
    using CHUNK_SIZE_pos by (simp only: less_eq_div_iff_mult_less_eq)
  then have "i * CHUNK_SIZE + CHUNK_SIZE + CHUNK_SIZE \<le> file_size f + (CHUNK_SIZE - 1)"
    by (simp add: algebra_simps)
  then have "i * CHUNK_SIZE + CHUNK_SIZE \<le> file_size f"
    using CHUNK_SIZE_pos by linarith
  moreover have "slices f 0 ! i = take CHUNK_SIZE (drop (i * CHUNK_SIZE) (file_bytes f))"
    using assms by (simp add: slices_nth)
  ultimately show ?thesis by (simp add: file_size_def)
qed

lemma slices_last_length:
  assumes "0 < file_size f"
  shows "length (last (slices f 0)) =
           (if file_size f - CHUNK_SIZE * (file_size f div CHUNK_SIZE) \<noteq> 0
            then file_size f - CHUNK_SIZE * (file_size f div CHUNK_SIZE) else CHUNK_SIZE)"
proof -
  let ?n = "length (slices f 0)"
  let ?q = "file_size f div CHUNK_SIZE"
  let ?r = "file_size f mod CHUNK_SIZE"
  have split: "file_size f = CHUNK_SIZE * ?q + ?r" by simp
  have rem: "file_size f - CHUNK_SIZE * ?q = ?r" by (simp add: minus_mult_div_eq_mod)
  have n: "?n = ?q + (if ?r = 0 then 0 else 1)"
    using CHUNK_SIZE_pos by (simp only: slices_whole_length ceiling_div)
  have pos: "0 < ?n"
  proof (cases "?r = 0")
    case True
    with split assms have "0 < ?q" by (cases "?q") simp_all
    with n show ?thesis by simp
  next
    case False
    with n show ?thesis by simp
  qed
  then have "last (slices f 0) = slices f 0 ! (?n - 1)"
    by (simp add: last_conv_nth)
  also have "\<dots> = take CHUNK_SIZE (drop ((?n - 1) * CHUNK_SIZE) (file_bytes f))"
    using pos by (simp add: slices_nth)
  finally have len: "length (last (slices f 0)) =
      min CHUNK_SIZE (file_size f - (?n - 1) * CHUNK_SIZE)"
    by (simp add: file_size_def min.commute)
  show ?thesis
  proof (cases "?r = 0")
    case True
    with split assms have q: "0 < ?q" by (cases "?q") simp_all
    from True n have "?n - 1 = ?q - 1" by simp
    moreover from True split have "file_size f = CHUNK_SIZE * ?q" by simp
    moreover from q have "CHUNK_SIZE * ?q - (?q - 1) * CHUNK_SIZE = CHUNK_SIZE"
      by (cases "?q") (simp_all add: algebra_simps)
    ultimately have "file_size f - (?n - 1) * CHUNK_SIZE = CHUNK_SIZE" by simp
    with len True rem show ?thesis by simp
  next
    case False
    with n have "?n - 1 = ?q" by simp
    then have "file_size f - (?n - 1) * CHUNK_SIZE = ?r"
      using rem by (simp add: mult.commute)
    moreover have "?r < CHUNK_SIZE" using CHUNK_SIZE_pos by simp
    ultimately show ?thesis using len False rem by simp
  qed
qed

subsection \<open>What follows a wait\<close>

lemma backpressure_None:
  "backpressure fuel env s = (None, s') \<Longrightarrow> CHUNK_SIZE * 8 < bufferedAmount (dc s')"
  by (induction fuel arbitrary: s) (auto split: if_splits)

lemma send_loop_effects_extend:
  "\<exists>rest. effects (snd (send_loop fuel env f sp offset s)) = effects s @ rest"
proof (induction fuel offset s rule: send_loop_cases_induct [where f = f and env = env and sp = sp])
  case (turn fuel offset s)
  show ?case
  proof (cases "offset < file_size f")
    case False
    then show ?thesis by (simp add: send_loop_done)
  next
    case True
    obtain res s1 where bp: "backpressure fuel env s = (res, s1)"
      by (cases "backpressure fuel env s")
    obtain k where e1: "effects s1 = effects s @ replicate k (SetTimeout 20)"
      using backpressure_timers [of fuel env s] bp by auto
    show ?thesis
    proof (cases res)
      case None
      with True bp e1 show ?thesis by (simp add: send_loop_pending)
    next
      case (Some fuel')
      show ?thesis
      proof (cases "readyState (dc s1) = Open")
        case False
        with True bp Some e1 show ?thesis by (simp add: send_loop_rejected await_effects)
      next
        case open1: True
        from turn.IH [OF True _ open1] bp Some obtain rest where
          "effects (snd (send_loop fuel' env f sp (offset + CHUNK_SIZE)
                      (chunk_step env f sp offset s1))) =
             effects (chunk_step env f sp offset s1) @ rest"
          by auto
        with True bp Some open1 e1 show ?thesis
          by (simp add: send_loop_next chunk_step_effects)
      qed
    qed
  qed
qed

lemma send_loop_writes_after_wait:
  assumes "offset < file_size f" and "backpressure fuel env s = (Some fuel', s1)"
    and "readyState (dc s1) = Open"
  shows "\<exists>rest. effects (snd (send_loop fuel env f sp offset s)) =
           effects s1 @
           Send (Binary (file_slice f offset (offset + CHUNK_SIZE)))
                (bufferedAmount (dc s1) - drained env (suspensions s1)) # rest"
proof -
  from send_loop_effects_extend [of fuel' env f sp "offset + CHUNK_SIZE"
         "chunk_step env f sp offset s1"]
  obtain rest where
    "effects (snd (send_loop fuel' env f sp (offset + CHUNK_SIZE)
                (chunk_step env f sp offset s1))) =
       effects (chunk_step env f sp offset s1) @ rest" ..
  with assms show ?thesis by (simp add: send_loop_next chunk_step_effects)
qed

lemma run_disciplined:
  "list_all disciplined (snd (snd (sendFileOverRTC fuel env f c sp)))"
proof (cases "not_open c")
  case True
  then show ?thesis by (simp add: run_not_open)
next
  case False
  then obtain d where c: "c = Some d" and op: "readyState d = Open"
    by (auto simp: not_open_def split: option.splits)
  have "list_all disciplined (effects (snd (send_loop fuel env f sp 0 (started env f d))))"
    by (rule send_loop_disciplined) (simp add: started_def)
  then show ?thesis using c op by (simp add: run_open split_beta)
qed

subsection \<open>The content that the receiver hands over\<close>

lemma concat_take_full:
  assumes "length (concat (take j bs)) = length (concat bs)"
  shows "concat (take j bs) = concat bs"
proof -
  have "concat bs = concat (take j bs) @ concat (drop j bs)"
    by (simp only: concat_append [symmetric] append_take_drop_id)
  moreover from this have "length (concat bs) =
      length (concat (take j bs)) + length (concat (drop j bs))"
    by (metis length_append)
  with assms have "concat (drop j bs) = []" by simp
  ultimately show ?thesis by simp
qed

lemma completes_on_slices:
  assumes "0 < msize m" and "msize m = length (concat bs)"
  shows "list_all
       (\<lambda>n. case onmessage op
                    (fst (deliver op setupReceive (take n (Text m # map Binary bs))))
                    ((Text m # map Binary bs) ! n) of
               (r, cbs) \<Rightarrow>
                 receivedBytes r \<noteq> msize m \<or>
                 (m, Blob (concat bs) (mtype m)) \<in> set (completions cbs))
       [0..<length (Text m # map Binary bs)]"
  unfolding list_all_iff
proof
  fix n
  assume "n \<in> set [0..<length (Text m # map Binary bs)]"
  then have n: "n \<le> length bs" by auto
  show "case onmessage op
                    (fst (deliver op setupReceive (take n (Text m # map Binary bs))))
                    ((Text m # map Binary bs) ! n) of
               (r, cbs) \<Rightarrow>
                 receivedBytes r \<noteq> msize m \<or>
                 (m, Blob (concat bs) (mtype m)) \<in> set (completions cbs)"
  proof (cases n)
    case 0
    with assms(1) show ?thesis by (simp add: setupReceive_def)
  next
    case (Suc k)
    with n have k: "k < length bs" by simp
    let ?r = "\<lparr>meta = Some m, receivedBytes = length (concat (take k bs)),
               chunks = take k bs\<rparr>"
    have "fst (deliver op setupReceive (take n (Text m # map Binary bs))) =
            fst (deliver op \<lparr>meta = Some m, receivedBytes = 0, chunks = []\<rparr>
                   (map Binary (take k bs)))"
      using Suc by (simp add: setupReceive_def take_map split_beta)
    also have "\<dots> = ?r" by (simp add: deliver_binary_state)
    finally have st: "fst (deliver op setupReceive (take n (Text m # map Binary bs))) = ?r" .
    have fr: "(Text m # map Binary bs) ! n = Binary (bs ! k)"
      using Suc k by simp
    have tk: "take k bs @ [bs ! k] = take (Suc k) bs"
      using k by (simp add: take_Suc_conv_app_nth)
    have "length (concat (take k bs)) + length (bs ! k) = msize m \<Longrightarrow>
          concat (take k bs) @ bs ! k = concat bs"
    proof -
      assume "length (concat (take k bs)) + length (bs ! k) = msize m"
      then have "length (concat (take (Suc k) bs)) = length (concat bs)"
        using assms(2) by (simp add: tk [symmetric])
      then have "concat (take (Suc k) bs) = concat bs" by (rule concat_take_full)
      then show ?thesis by (simp add: tk [symmetric])
    qed
    then show ?thesis unfolding st fr by (auto simp: Let_def)
  qed
qed

subsection \<open>Offers in a session\<close>

lemma on_signal_isReceiver: "isReceiver (fst (on_signal st n d)) = isReceiver n"
  by (cases d) (simp_all split: option.splits)

lemma on_signal_no_offer: "\<not> list_ex offering (snd (on_signal st n d))"
  by (cases d) (simp_all split: option.splits)

lemma handle_isReceiver: "isReceiver (fst (handle st oco n e)) = isReceiver n"
  by (cases "(st, oco, n, e)" rule: handle.cases)
     (simp_all add: on_signal_isReceiver on_peer_joined_def split: option.splits)

lemma handle_offer:
  "list_ex offering (snd (handle st oco n e)) \<Longrightarrow> e = PeerJoined \<and> \<not> isReceiver n"
  by (cases "(st, oco, n, e)" rule: handle.cases)
     (simp_all add: on_signal_no_offer on_peer_joined_def split: if_splits)

lemma handle_all_offer:
  "list_ex offering (snd (handle_all st oco n es)) \<Longrightarrow> PeerJoined \<in> set es \<and> \<not> isReceiver n"
proof (induction es arbitrary: n)
  case Nil
  then show ?case by simp
next
  case (Cons e es)
  obtain n' as where step: "handle st oco n e = (n', as)" by (cases "handle st oco n e")
  obtain n'' as' where rest: "handle_all st oco n' es = (n'', as')"
    by (cases "handle_all st oco n' es")
  have same: "isReceiver n' = isReceiver n"
    using handle_isReceiver [of st oco n e] step by simp
  from Cons.prems step rest consider "list_ex offering as" | "list_ex offering as'"
    by auto
  then show ?case
  proof cases
    case 1
    then show ?thesis using handle_offer [of st oco n e] step by simp
  next
    case 2
    then show ?thesis using Cons.IH [of n'] rest same by simp
  qed
qed

section \<open>The claims\<close>

subsection \<open>Completion only at exact equality\<close>

text \<open>
  Claim C10. The receiver calls the completion callback only on the arrival of a binary
  message at which the bytes counted so far are exactly \<^verbatim>\<open>meta.size\<close>; the content
  it passes is the concatenation of the fragments in arrival order. The count never
  decreases, and once it is above the size of some metadata, no later message, of
  whatever kind, makes the receiver call the completion callback for that metadata.
\<close>

theorem completion_requires_exact_equality:
  "((m, b) \<in> set (completions (snd (onmessage op r f))) \<longrightarrow>
      (\<exists>d. f = Binary d \<and> meta r = Some m \<and> receivedBytes r + length d = msize m \<and>
           b = Blob (concat (chunks r) @ d) (mtype m))) \<and>
   receivedBytes r \<le> receivedBytes (fst (deliver op r fs)) \<and>
   (msize m < receivedBytes r \<longrightarrow> (m, b) \<notin> set (completions (snd (deliver op r fs))))"
proof (intro conjI impI)
  assume "(m, b) \<in> set (completions (snd (onmessage op r f)))"
  then show "\<exists>d. f = Binary d \<and> meta r = Some m \<and> receivedBytes r + length d = msize m \<and>
           b = Blob (concat (chunks r) @ d) (mtype m)"
    by (rule onmessage_completion)
next
  show "receivedBytes r \<le> receivedBytes (fst (deliver op r fs))"
    by (rule deliver_receivedBytes_mono)
next
  assume "msize m < receivedBytes r"
  then show "(m, b) \<notin> set (completions (snd (deliver op r fs)))"
    using deliver_completion_size [of m b op r fs] by auto
qed

text \<open>
  Claim C10, at concrete inputs: a receiver that has one byte of a two-byte file
  completes on the second byte; a receiver that has counted three bytes does not
  complete for that metadata, whatever follows.
\<close>

theorem completion_requires_exact_equality_witness:
  "(two_byte_metadata, Blob [1, 2] ''application/octet-stream'') \<in>
     set (completions (snd (onmessage True
            \<lparr>meta = Some two_byte_metadata, receivedBytes = 1, chunks = [[1]]\<rparr> (Binary [2])))) \<and>
   (\<exists>d. Binary [2] = Binary d \<and>
        receivedBytes \<lparr>meta = Some two_byte_metadata, receivedBytes = 1, chunks = [[1]]\<rparr>
          + length d = msize two_byte_metadata) \<and>
   msize two_byte_metadata <
     receivedBytes \<lparr>meta = Some two_byte_metadata, receivedBytes = 3, chunks = [[1, 2, 3]]\<rparr> \<and>
   (two_byte_metadata, Blob [1, 2] ''application/octet-stream'') \<notin>
     set (completions (snd (deliver True
            \<lparr>meta = Some two_byte_metadata, receivedBytes = 3, chunks = [[1, 2, 3]]\<rparr>
            [Binary [4], Text two_byte_metadata, Binary []])))"
  using completion_requires_exact_equality
          [of two_byte_metadata "Blob [1, 2] ''application/octet-stream''" True
              "\<lparr>meta = Some two_byte_metadata, receivedBytes = 1, chunks = [[1]]\<rparr>"
              "Binary [2]" "[]"]
        completion_requires_exact_equality
          [of two_byte_metadata "Blob [1, 2] ''application/octet-stream''" True
              "\<lparr>meta = Some two_byte_metadata, receivedBytes = 3, chunks = [[1, 2, 3]]\<rparr>"
              "Binary [2]" "[Binary [4], Text two_byte_metadata, Binary []]"]
  by (simp add: two_byte_metadata_def Let_def)

subsection \<open>Binary messages before the metadata\<close>

text \<open>
  Claim C2, as stated, fails: one byte arrives before the metadata of a two-byte file
  and one after it, and the receiver calls the completion callback, which it would not
  have done had the first byte not been counted.
\<close>

theorem premetadata_frames_counterexample:
  "\<not> counts_only_after_metadata True [Binary [1], Text two_byte_metadata, Binary [2]]"
  by (simp add: counts_only_after_metadata_def setupReceive_def two_byte_metadata_def Let_def)

text \<open>
  Claim C2, amended. Binary messages that arrive before the first text message trigger
  no callback, neither progress nor completion, when they arrive; their bytes are
  appended to the fragments and added to \<^verbatim>\<open>receivedBytes\<close> all the same, so that from
  the metadata on the receiver goes on as one that has already counted them.
\<close>

theorem premetadata_frames_are_buffered:
  "deliver op setupReceive (map Binary ds @ Text m # fs) =
     deliver op \<lparr>meta = Some m, receivedBytes = length (concat ds), chunks = ds\<rparr> fs"
  by (simp add: deliver_append deliver_binary_no_meta setupReceive_def split: prod.splits)

subsection \<open>Monotone progress\<close>

text \<open>
  Claim C8. The byte counts passed to successive calls of the progress callback never
  decrease: neither those of the sender (its \<^verbatim>\<open>offset\<close>) during one call of
  \<^verbatim>\<open>sendFileOverRTC\<close>, however far the call gets, nor those of the receiver
  (\<^verbatim>\<open>receivedBytes\<close>) over any sequence of messages.
\<close>

theorem progress_is_monotone:
  "sorted (map snd (progress_calls (snd (snd (sendFileOverRTC fuel env f c sp))))) \<and>
   sorted (progress_bytes (snd (deliver op r fs)))"
proof
  show "sorted (map snd (progress_calls (snd (snd (sendFileOverRTC fuel env f c sp)))))"
  proof (cases "not_open c")
    case True
    then show ?thesis by (simp add: run_not_open)
  next
    case False
    then obtain d where c: "c = Some d" and op: "readyState d = Open"
      by (auto simp: not_open_def split: option.splits)
    have "sorted (map snd (progress_calls (effects
            (snd (send_loop fuel env f sp 0 (started env f d))))))"
      by (rule send_loop_progress_sorted) (simp_all add: started_def)
    then show ?thesis using c op by (simp add: run_open split_beta)
  qed
next
  show "sorted (progress_bytes (snd (deliver op r fs)))"
    by (rule deliver_progress_sorted)
qed

subsection \<open>The channel is not open\<close>

text \<open>
  Claim C6, as stated, fails: the error is not raised synchronously. With an absent
  channel the call does not throw; it returns a promise, rejected with
  \<^verbatim>\<open>DataChannel is not open\<close>.
\<close>

theorem channel_not_ready_counterexample:
  "sendFileOverRTC_call 0 steady_transport small_file None True =
     Promise (Rejected DataChannelNotOpen, None, [], 0) \<and>
   \<not> throws (sendFileOverRTC_call 0 steady_transport small_file None True)"
  by (simp add: sendFileOverRTC_call_def sendFileOverRTC_body_def)

text \<open>
  Claim C6, amended. A call of \<^verbatim>\<open>sendFileOverRTC\<close> never throws to its caller. The
  promise it returns is rejected with the error \<^verbatim>\<open>DataChannel is not open\<close> exactly
  when the channel is absent or its \<^verbatim>\<open>readyState\<close> is not \<^verbatim>\<open>open\<close> at the call; the
  body then ends before its first suspension, with nothing written to the channel and
  the channel as it was.
\<close>

theorem channel_not_ready_rejection:
  "\<not> throws (sendFileOverRTC_call fuel env f c sp) \<and>
   ((\<exists>c' effs n. sendFileOverRTC_call fuel env f c sp =
        Promise (Rejected DataChannelNotOpen, c', effs, n)) \<longleftrightarrow>
      (c = None \<or> (\<exists>d. c = Some d \<and> readyState d \<noteq> Open))) \<and>
   (c = None \<or> (\<exists>d. c = Some d \<and> readyState d \<noteq> Open) \<longrightarrow>
      sendFileOverRTC_call fuel env f c sp =
        Promise (Rejected DataChannelNotOpen, c, [], 0))"
proof -
  have cond: "not_open c \<longleftrightarrow> (c = None \<or> (\<exists>d. c = Some d \<and> readyState d \<noteq> Open))"
    by (cases c) (simp_all add: not_open_def)
  have never: "\<not> throws (sendFileOverRTC_call fuel env f c sp)"
    by (simp add: sendFileOverRTC_call_def)
  show ?thesis
  proof (cases "not_open c")
    case True
    then have "sendFileOverRTC_call fuel env f c sp =
                 Promise (Rejected DataChannelNotOpen, c, [], 0)"
      by (simp add: sendFileOverRTC_call_def body_not_open)
    with True never show ?thesis unfolding cond [symmetric] by simp
  next
    case False
    then obtain d where c: "c = Some d" and op: "readyState d = Open"
      by (auto simp: not_open_def split: option.splits)
    have "fst (send_loop fuel env f sp 0 (started env f d)) \<noteq> Rejected DataChannelNotOpen"
      by (rule send_loop_not_rejected) (simp add: started_def op)
    then have "fst (sendFileOverRTC_body fuel env f c sp) \<noteq> Rejected DataChannelNotOpen"
      using c op by (simp add: body_open split_beta)
    then have "\<not> (\<exists>c' effs n. sendFileOverRTC_call fuel env f c sp =
        Promise (Rejected DataChannelNotOpen, c', effs, n))"
      by (auto simp: sendFileOverRTC_call_def)
    with False never show ?thesis unfolding cond [symmetric] by simp
  qed
qed

text \<open>
  Claim C6 as amended, at concrete inputs: a channel that is still connecting, an
  absent channel, and an open one, on which the promise is fulfilled after one
  suspension.
\<close>

theorem channel_not_ready_rejection_witness:
  "sendFileOverRTC_call 0 steady_transport small_file (Some connecting_channel) True =
     Promise (Rejected DataChannelNotOpen, Some connecting_channel, [], 0) \<and>
   sendFileOverRTC_call 0 steady_transport small_file None True =
     Promise (Rejected DataChannelNotOpen, None, [], 0) \<and>
   sendFileOverRTC_call 0 steady_transport small_file (Some idle_channel) True =
     Promise (Resolved, Some \<lparr>readyState = Open, bufferedAmount = 3\<rparr>,
              [Send (Text (metadata_of small_file)) 0, Send (Binary [1, 2, 3]) 0,
               SetProgress (Finite (6553600 / 3)) 65536], 1) \<and>
   \<not> (\<exists>c' effs n. sendFileOverRTC_call 0 steady_transport small_file (Some idle_channel) True =
        Promise (Rejected DataChannelNotOpen, c', effs, n))"
  using channel_not_ready_rejection
          [of 0 steady_transport small_file "Some connecting_channel" True]
        channel_not_ready_rejection [of 0 steady_transport small_file None True]
        channel_not_ready_rejection [of 0 steady_transport small_file "Some idle_channel" True]
  by (simp add: sendFileOverRTC_call_def run_eval connecting_channel_def idle_channel_def
        steady_transport_def small_file_def)

subsection \<open>The partition into chunks\<close>

text \<open>
  Claim C3. For a file of size \<open>S > 0\<close> on an open channel, a call of
  \<^verbatim>\<open>sendFileOverRTC\<close> that runs to its end has written exactly one text message, the
  metadata, first, and then \<open>\<lceil>S / 65536\<rceil>\<close> binary messages that are the bytes of the
  file in order: each of 65536 bytes except the last, which has \<open>S - 65536 * \<lfloor>S / 65536\<rfloor>\<close>
  bytes if that is not zero and 65536 otherwise. The call does run to its end when the
  transport takes at least one byte out of the queue during every suspension.
\<close>

theorem chunk_partition:
  assumes "readyState c = Open" and "0 < file_size f"
  shows
    "((\<forall>t. 0 < drained env t) \<longrightarrow>
        (\<exists>fuel. fst (sendFileOverRTC fuel env f (Some c) sp) = Resolved)) \<and>
     (\<forall>fuel. fst (sendFileOverRTC fuel env f (Some c) sp) = Resolved \<longrightarrow>
        (\<exists>bs. written (snd (snd (sendFileOverRTC fuel env f (Some c) sp))) =
                Text (metadata_of f) # map Binary bs \<and>
              length bs = (file_size f + 65535) div 65536 \<and>
              concat bs = file_bytes f \<and>
              (\<forall>i. Suc i < length bs \<longrightarrow> length (bs ! i) = 65536) \<and>
              length (last bs) =
                (if file_size f - 65536 * (file_size f div 65536) \<noteq> 0
                 then file_size f - 65536 * (file_size f div 65536) else 65536)))"
proof (intro conjI impI allI)
  assume "\<forall>t. 0 < drained env t"
  with assms(1) show "\<exists>fuel. fst (sendFileOverRTC fuel env f (Some c) sp) = Resolved"
    by (blast intro: run_live)
next
  fix fuel
  assume "fst (sendFileOverRTC fuel env f (Some c) sp) = Resolved"
  with assms(1) have "written (snd (snd (sendFileOverRTC fuel env f (Some c) sp))) =
      Text (metadata_of f) # map Binary (slices f 0)"
    by (rule run_resolved_written)
  moreover have "length (slices f 0) = (file_size f + 65535) div 65536"
    by (simp add: slices_whole_length CHUNK_SIZE_def)
  moreover have "concat (slices f 0) = file_bytes f"
    by (simp add: slices_concat)
  moreover have "\<forall>i. Suc i < length (slices f 0) \<longrightarrow> length (slices f 0 ! i) = 65536"
    using slices_full_length [of _ f] by (simp add: CHUNK_SIZE_def)
  moreover have "length (last (slices f 0)) =
                (if file_size f - 65536 * (file_size f div 65536) \<noteq> 0
                 then file_size f - 65536 * (file_size f div 65536) else 65536)"
    using slices_last_length [OF assms(2)] by (simp add: CHUNK_SIZE_def)
  ultimately show "\<exists>bs. written (snd (snd (sendFileOverRTC fuel env f (Some c) sp))) =
                Text (metadata_of f) # map Binary bs \<and>
              length bs = (file_size f + 65535) div 65536 \<and>
              concat bs = file_bytes f \<and>
              (\<forall>i. Suc i < length bs \<longrightarrow> length (bs ! i) = 65536) \<and>
              length (last bs) =
                (if file_size f - 65536 * (file_size f div 65536) \<noteq> 0
                 then file_size f - 65536 * (file_size f div 65536) else 65536)"
    by blast
qed

text \<open>
  Claim C3, at a concrete input: the file of 150000 bytes goes out as the metadata and
  three binary messages, the last of 18928 bytes.
\<close>

theorem chunk_partition_witness:
  "readyState idle_channel = Open \<and> 0 < file_size large_file \<and>
   (\<forall>t. 0 < drained steady_transport t) \<and>
   fst (sendFileOverRTC 0 steady_transport large_file (Some idle_channel) True) = Resolved \<and>
   (\<exists>bs. written (snd (snd (sendFileOverRTC 0 steady_transport large_file
                               (Some idle_channel) True))) =
            Text (metadata_of large_file) # map Binary bs \<and>
         length bs = 3 \<and> concat bs = file_bytes large_file \<and>
         (\<forall>i. Suc i < length bs \<longrightarrow> length (bs ! i) = 65536) \<and>
         length (last bs) = 18928)"
proof -
  have a: "readyState idle_channel = Open" by (simp add: idle_channel_def)
  have b: "0 < file_size large_file" by (simp add: file_size_def large_file_def)
  have c: "fst (sendFileOverRTC 0 steady_transport large_file (Some idle_channel) True)
             = Resolved"
    by (simp add: run_eval idle_channel_def steady_transport_def large_file_def)
  have d: "file_size large_file = 150000" by (simp add: file_size_def large_file_def)
  have e: "\<forall>t. 0 < drained steady_transport t" by (simp add: steady_transport_def)
  from chunk_partition [OF a b, of steady_transport True] a b c e show ?thesis
    unfolding d by simp
qed

subsection \<open>Backpressure\<close>

text \<open>
  Claim C5. In every call of \<^verbatim>\<open>sendFileOverRTC\<close>, however far it gets, each binary
  message is written at a \<^verbatim>\<open>bufferedAmount\<close> of at most \<open>8 * 65536\<close> bytes, and each
  timer the sender sets waits 20 ms. The wait before a write ends only at a
  \<^verbatim>\<open>bufferedAmount\<close> that no longer exceeds the ceiling; it has then set one 20 ms
  timer for each turn it took, and it took none exactly when the amount was within the
  ceiling to begin with. A wait that has not ended is still above the ceiling. After
  the wait, the next effect is the write of the slice.
\<close>

theorem backpressure_bound:
  "list_all disciplined (snd (snd (sendFileOverRTC fuel env f c sp))) \<and>
   (backpressure fuel env s = (Some fuel', s') \<longrightarrow>
      bufferedAmount (dc s') \<le> 8 * 65536 \<and> fuel' \<le> fuel \<and>
      effects s' = effects s @ replicate (fuel - fuel') (SetTimeout 20) \<and>
      (fuel' = fuel \<longleftrightarrow> bufferedAmount (dc s) \<le> 8 * 65536)) \<and>
   (backpressure fuel env s = (None, s') \<longrightarrow> 8 * 65536 < bufferedAmount (dc s')) \<and>
   (offset < file_size f \<and> backpressure fuel env s = (Some fuel', s') \<and>
    readyState (dc s') = Open \<longrightarrow>
      (\<exists>rest. effects (snd (send_loop fuel env f sp offset s)) =
         effects s' @
         Send (Binary (file_slice f offset (offset + 65536)))
              (bufferedAmount (dc s') - drained env (suspensions s')) # rest))"
proof (intro conjI impI)
  show "list_all disciplined (snd (snd (sendFileOverRTC fuel env f c sp)))"
    by (rule run_disciplined)
next
  assume "backpressure fuel env s = (Some fuel', s')"
  from backpressure_Some [OF this]
  show "bufferedAmount (dc s') \<le> 8 * 65536" and "fuel' \<le> fuel"
    and "effects s' = effects s @ replicate (fuel - fuel') (SetTimeout 20)"
    and "fuel' = fuel \<longleftrightarrow> bufferedAmount (dc s) \<le> 8 * 65536"
    by (simp_all add: CHUNK_SIZE_def)
next
  assume "backpressure fuel env s = (None, s')"
  from backpressure_None [OF this] show "8 * 65536 < bufferedAmount (dc s')"
    by (simp add: CHUNK_SIZE_def)
next
  assume "offset < file_size f \<and> backpressure fuel env s = (Some fuel', s') \<and>
    readyState (dc s') = Open"
  then show "\<exists>rest. effects (snd (send_loop fuel env f sp offset s)) =
         effects s' @
         Send (Binary (file_slice f offset (offset + 65536)))
              (bufferedAmount (dc s') - drained env (suspensions s')) # rest"
    using send_loop_writes_after_wait [of offset f fuel env s fuel' s' sp]
    by (simp add: CHUNK_SIZE_def)
qed

text \<open>
  Claim C5, at concrete inputs: with 600064 bytes queued and a transport that takes
  65536 bytes during each suspension, the sender sets two timers and then writes the
  first slice of the large file at a \<^verbatim>\<open>bufferedAmount\<close> of 403456; with a transport
  that takes nothing and no fuel, the wait has not ended.
\<close>

theorem backpressure_bound_witness:
  "backpressure (Suc (Suc 0)) steady_transport
       (started steady_transport large_file congested_channel) =
     (Some 0,
      \<lparr>dc = \<lparr>readyState = Open, bufferedAmount = 468992\<rparr>, suspensions = 2,
       effects = [Send (Text (metadata_of large_file)) 600000, SetTimeout 20, SetTimeout 20]\<rparr>) \<and>
   (468992::nat) \<le> 8 * 65536 \<and>
   0 < file_size large_file \<and>
   (\<exists>rest. effects (snd (send_loop (Suc (Suc 0)) steady_transport large_file True 0
                (started steady_transport large_file congested_channel))) =
       [Send (Text (metadata_of large_file)) 600000, SetTimeout 20, SetTimeout 20,
        Send (Binary (file_slice large_file 0 65536)) 403456] @ rest) \<and>
   backpressure 0 stalled_transport (started stalled_transport small_file congested_channel) =
     (None, started stalled_transport small_file congested_channel) \<and>
   8 * 65536 < bufferedAmount (dc (started stalled_transport small_file congested_channel))"
proof -
  let ?s = "started steady_transport large_file congested_channel"
  let ?s' = "\<lparr>dc = \<lparr>readyState = Open, bufferedAmount = 468992\<rparr>, suspensions = 2,
       effects = [Send (Text (metadata_of large_file)) 600000, SetTimeout 20, SetTimeout 20]\<rparr>"
  let ?t = "started stalled_transport small_file congested_channel"
  have a: "backpressure (Suc (Suc 0)) steady_transport ?s = (Some 0, ?s')"
    by (simp add: started_def steady_transport_def congested_channel_def await_def
          CHUNK_SIZE_def)
  have b: "0 < file_size large_file" by (simp add: file_size_def large_file_def)
  have c: "backpressure 0 stalled_transport ?t = (None, ?t)"
    by (simp add: started_def stalled_transport_def congested_channel_def CHUNK_SIZE_def)
  from backpressure_bound [of "Suc (Suc 0)" steady_transport large_file "Some idle_channel" True
          ?s 0 ?s' 0]
       backpressure_bound [of 0 stalled_transport small_file "Some idle_channel" True
          ?t 0 ?t 0]
       a b c
  show ?thesis by (simp add: steady_transport_def)
qed

subsection \<open>Round trip\<close>

text \<open>
  Claim C1, as stated, fails for the empty file: the sender writes the metadata alone,
  after which the receiver has counted as many bytes as the metadata declares, none, and
  has not called the completion callback.
\<close>

theorem round_trip_counterexample:
  "\<not> completes_when_size_reached True empty_file
       (written (snd (snd (sendFileOverRTC 0 steady_transport empty_file
                             (Some idle_channel) True))))"
  by (simp add: completes_when_size_reached_def run_eval idle_channel_def
        steady_transport_def empty_file_def setupReceive_def)

text \<open>
  Claim C1, amended to files of size \<open>S > 0\<close>. When the messages that a completed call
  of \<^verbatim>\<open>sendFileOverRTC\<close> has written are delivered in that order to a receiver set up
  by \<^verbatim>\<open>setupReceive\<close>, then at every message after which \<^verbatim>\<open>receivedBytes\<close> equals
  \<open>S\<close> the receiver has called the completion callback with the metadata and with the
  fragments concatenated in arrival order, which are the bytes of the file, \<open>S\<close> of
  them; this happens, exactly once over the whole delivery, and \<^verbatim>\<open>receivedBytes\<close>
  ends at \<open>S\<close>.
\<close>

theorem round_trip_completion:
  assumes "readyState c = Open" and "0 < file_size f"
    and "fst (sendFileOverRTC fuel env f (Some c) sp) = Resolved"
  shows "completes_when_size_reached op f
           (written (snd (snd (sendFileOverRTC fuel env f (Some c) sp)))) \<and>
         completions (snd (deliver op setupReceive
           (written (snd (snd (sendFileOverRTC fuel env f (Some c) sp)))))) =
           [(metadata_of f, Blob (file_bytes f) (file_type f))] \<and>
         receivedBytes (fst (deliver op setupReceive
           (written (snd (snd (sendFileOverRTC fuel env f (Some c) sp)))))) = file_size f \<and>
         length (file_bytes f) = msize (metadata_of f)"
proof -
  let ?m = "metadata_of f"
  let ?bs = "slices f 0"
  have w: "written (snd (snd (sendFileOverRTC fuel env f (Some c) sp))) =
             Text ?m # map Binary ?bs"
    using assms(1,3) by (rule run_resolved_written)
  have cat: "concat ?bs = file_bytes f" by (simp add: slices_concat)
  have size: "msize ?m = file_size f" "mtype ?m = file_type f"
    by (simp_all add: metadata_of_def)
  have len: "length (concat ?bs) = file_size f" by (simp add: cat file_size_def)
  have ne: "?bs \<noteq> []" using len assms(2) by auto
  have p1: "0 < msize ?m" using assms(2) by (simp only: size)
  have p2: "msize ?m = length (concat ?bs)" by (simp only: size len)
  have "completes_when_size_reached op f (Text ?m # map Binary ?bs)"
    unfolding completes_when_size_reached_def
    using completes_on_slices [OF p1 p2, of op] by (simp only: size cat)
  moreover have "completions (snd (deliver op setupReceive (Text ?m # map Binary ?bs))) =
      [(?m, Blob (file_bytes f) (file_type f))]"
    using deliver_binary_complete
            [of "\<lparr>meta = Some ?m, receivedBytes = 0, chunks = []\<rparr>" ?m ?bs op]
          slices_nonempty [of _ f 0] ne
    by (simp add: setupReceive_def split_beta size len cat file_size_def)
  moreover have "receivedBytes (fst (deliver op setupReceive (Text ?m # map Binary ?bs))) =
      file_size f"
    by (simp add: setupReceive_def split_beta deliver_binary_state len)
  moreover have "length (file_bytes f) = msize ?m"
    by (simp add: size file_size_def)
  ultimately show ?thesis unfolding w by blast
qed

text \<open>
  Claim C1 as amended, at a concrete input: the file of 150000 bytes arrives whole.
\<close>

theorem round_trip_completion_witness:
  "readyState idle_channel = Open \<and> 0 < file_size large_file \<and>
   fst (sendFileOverRTC 0 steady_transport large_file (Some idle_channel) True) = Resolved \<and>
   completes_when_size_reached True large_file
     (written (snd (snd (sendFileOverRTC 0 steady_transport large_file
                           (Some idle_channel) True)))) \<and>
   completions (snd (deliver True setupReceive
     (written (snd (snd (sendFileOverRTC 0 steady_transport large_file
                           (Some idle_channel) True)))))) =
     [(metadata_of large_file, Blob (replicate 150000 0) ''application/zip'')]"
proof -
  have a: "readyState idle_channel = Open" by (simp add: idle_channel_def)
  have b: "0 < file_size large_file" by (simp add: file_size_def large_file_def)
  have c: "fst (sendFileOverRTC 0 steady_transport large_file (Some idle_channel) True)
             = Resolved"
    by (simp add: run_eval idle_channel_def steady_transport_def large_file_def)
  have d: "file_bytes large_file = replicate 150000 0" "file_type large_file = ''application/zip''"
    by (simp_all add: large_file_def)
  from round_trip_completion [OF a b c, of True] a b c show ?thesis
    by (simp only: d)
qed

subsection \<open>The empty file\<close>

text \<open>
  Claim C4 fails on the code. For the empty file the sender writes the metadata and
  nothing else, and its call completes; the receiver stores the metadata and returns,
  without a call of the completion callback, and no further message is to come.
\<close>

theorem empty_file_never_completes:
  "sendFileOverRTC 0 steady_transport empty_file (Some idle_channel) True =
     (Resolved, Some \<lparr>readyState = Open, bufferedAmount = 64\<rparr>,
      [Send (Text (metadata_of empty_file)) 0]) \<and>
   msize (metadata_of empty_file) = 0 \<and>
   deliver True setupReceive [Text (metadata_of empty_file)] =
     (\<lparr>meta = Some (metadata_of empty_file), receivedBytes = 0, chunks = []\<rparr>, [])"
  by (simp add: run_eval idle_channel_def steady_transport_def empty_file_def setupReceive_def)

subsection \<open>Progress reported by the sender\<close>

text \<open>
  Claim C7 fails on the code. The sender reports its \<^verbatim>\<open>offset\<close>, which it advances by
  the chunk size after every write, also after a last slice that is shorter: for the
  file of 150000 bytes the third and last call reports 196608 bytes and 131.072 percent,
  where 150000 bytes have been written.
\<close>

theorem sender_progress_overshoots:
  "file_size large_file = 150000 \<and>
   fst (sendFileOverRTC 0 steady_transport large_file (Some idle_channel) True) = Resolved \<and>
   map (\<lambda>f. case f of Text m \<Rightarrow> 0 | Binary d \<Rightarrow> length d)
     (written (snd (snd (sendFileOverRTC 0 steady_transport large_file
                           (Some idle_channel) True)))) = [0, 65536, 65536, 18928] \<and>
   progress_calls (snd (snd (sendFileOverRTC 0 steady_transport large_file
                               (Some idle_channel) True))) =
     [(Finite (16384 / 375), 65536), (Finite (32768 / 375), 131072),
      (Finite (16384 / 125), 196608)]"
  by (simp add: run_eval idle_channel_def steady_transport_def large_file_def)

subsection \<open>The offer waits for the peer\<close>

text \<open>
  Claim C9. The call of \<^verbatim>\<open>createWebRTCConnection\<close>, which joins the room, neither
  creates nor sends an offer. In a session an offer is created or sent only if the
  peer-joined event has occurred and the side is the initiator, and the only handler
  that does so is the one for the peer-joined event; the responder never creates one. On
  that event the initiator creates its offer, sets it as the local description and
  sends it through the signalling socket, provided the peer connection yields an offer
  and accepts it.
\<close>

theorem offer_deferred:
  "\<not> list_ex offering (snd (createWebRTCConnection c receiver)) \<and>
   (list_ex offering (snd (handle st oco n e)) \<longrightarrow> e = PeerJoined \<and> \<not> isReceiver n) \<and>
   (list_ex offering (snd (session st oco c receiver es)) \<longrightarrow>
      PeerJoined \<in> set es \<and> \<not> receiver) \<and>
   (\<not> isReceiver n \<and> offer st = Some d \<and> accepts_local st d \<longrightarrow>
      handle st oco n PeerJoined =
        (n\<lparr>localDescription := Some d\<rparr>,
         [CreateOffer, SetLocalDescription d, Emit (Signal (code n) (Offer d))]))"
proof (intro conjI impI)
  show "\<not> list_ex offering (snd (createWebRTCConnection c receiver))"
    by (simp add: createWebRTCConnection_def)
next
  assume "list_ex offering (snd (handle st oco n e))"
  then show "e = PeerJoined" and "\<not> isReceiver n"
    using handle_offer [of st oco n e] by simp_all
next
  assume a: "list_ex offering (snd (session st oco c receiver es))"
  obtain n0 as0 where start: "createWebRTCConnection c receiver = (n0, as0)"
    by (cases "createWebRTCConnection c receiver")
  then have n0: "isReceiver n0 = receiver" and as0: "\<not> list_ex offering as0"
    by (auto simp: createWebRTCConnection_def split: if_splits)
  from a start as0 have "list_ex offering (snd (handle_all st oco n0 es))"
    by (simp add: session_def split_beta)
  from handle_all_offer [OF this] n0
  show "PeerJoined \<in> set es" and "\<not> receiver" by simp_all
next
  assume "\<not> isReceiver n \<and> offer st = Some d \<and> accepts_local st d"
  then show "handle st oco n PeerJoined =
        (n\<lparr>localDescription := Some d\<rparr>,
         [CreateOffer, SetLocalDescription d, Emit (Signal (code n) (Offer d))])"
    by (simp add: on_peer_joined_def)
qed

text \<open>
  Claim C9, at concrete inputs: the initiator's session up to the peer-joined event, and
  a responder's session in which the event occurs and an offer arrives.
\<close>

theorem offer_deferred_witness:
  "list_ex offering (snd (session willing_stack True ''123456'' False [PeerJoined])) \<and>
   PeerJoined \<in> set [PeerJoined] \<and>
   snd (session willing_stack True ''123456'' False [PeerJoined]) =
     [CreateDataChannel, Emit (JoinRoom ''123456''), CreateOffer,
      SetLocalDescription ''v=0 offer'', Emit (Signal ''123456'' (Offer ''v=0 offer''))] \<and>
   snd (session willing_stack True ''123456'' True
          [PeerJoined, SignalReceived (Offer ''v=0 offer'')]) =
     [Emit (JoinRoom ''123456''), SetRemoteDescription ''v=0 offer'', CreateAnswer,
      SetLocalDescription ''v=0 answer'', Emit (Signal ''123456'' (Answer ''v=0 answer''))]"
  using offer_deferred [of "''123456''" False willing_stack True
          "fst (createWebRTCConnection ''123456'' False)" PeerJoined "[PeerJoined]"
          "''v=0 offer''"]
  by (simp add: session_def createWebRTCConnection_def on_peer_joined_def willing_stack_def)

end
